theory Spec2Isabelle
  imports Complex_Main
begin

section \<open>The frame relay of app.py as an interleaved transition system\<close>

text \<open>
  app.py runs three kinds of control flow over the global dictionary \<open>app_state\<close>:
  the capture threads (\<open>video_stream_loop\<close>), one generator per connected viewer
  (\<open>generate_frames\<close>) and one run of \<open>start_stream\<close> per request; the server
  handles requests in parallel and nothing serialises them. Each is embedded
  as a step function over a program counter that names the source line it stands at; a
  schedule (a list of actions) interleaves them. What the runtime decides (whether a
  source opens or the open raises, what a read or an encode returns, how much time passes)
  is carried by the
  action. Time is a rational number of the time units of \<open>time.sleep\<close>: a sleeping
  thread cannot move before its wake-up time, and nothing forces a thread to move at once.
\<close>

subsection \<open>Data\<close>

type_synonym bytes = string
type_synonym frame = string

text \<open>The value of \<open>request.json.get("stream_url", 0)\<close>: a device index or a URI.\<close>

datatype source = Device nat | Uri string

text \<open>A \<open>cv2.VideoCapture\<close> object: whether the source could be opened when it was
  created, and how often \<open>release()\<close> was called on it.\<close>

record capture =
  src :: source
  opened :: bool
  releases :: nat

text \<open>Program counters of \<open>video_stream_loop\<close> (lines 29 to 42). A sleeping thread
  carries its wake-up time.\<close>

datatype loop_pc =
    L_while
  | L_read
  | L_encode frame
  | L_lock bytes
  | L_store bytes
  | L_backoff rat
  | L_pace rat
  | L_stopped

text \<open>Program counters of \<open>generate_frames\<close> (lines 48 to 56).\<close>

datatype gen_pc =
    G_lock
  | G_test
  | G_yield bytes
  | G_pace rat

record viewer =
  gen :: gen_pc
  sent :: "bytes list"

record response =
  code :: nat
  status :: string
  message :: string

text \<open>Program counters of one call of \<open>start_stream\<close> (lines 69 to 88);
  \<open>H_join\<close> carries the deadline of \<open>join(timeout=2)\<close>. A call ends by
  returning a response, or with the exception that \<open>cv2.VideoCapture\<close> raised at line
  78, which nothing catches (the server then answers 500).\<close>

datatype handler_pc =
    H_alive source
  | H_set source
  | H_join source rat
  | H_release source
  | H_clear source
  | H_open source
  | H_isopened source
  | H_spawn source
  | H_returned source response
  | H_raised source

datatype owner = Loop_thread nat | Viewer_session nat

record app_state =
  capture_thread :: "nat option"
  video_capture :: "nat option"
  output_frame :: "bytes option"
  lock :: "owner option"
  shutdown_flag :: bool
  threads :: "loop_pc list"
  captures :: "capture list"
  viewers :: "viewer list"
  calls :: "handler_pc list"
  now :: rat

definition init :: app_state where
  "init = \<lparr>capture_thread = None, video_capture = None, output_frame = None,
     lock = None, shutdown_flag = False, threads = [], captures = [], viewers = [],
     calls = [], now = 0\<rparr>"

subsection \<open>Constants of the source\<close>

definition backoff :: rat where
  "backoff = 2"

definition pacing :: rat where
  "pacing = 1 / 30"

definition join_timeout :: rat where
  "join_timeout = 2"

definition crlf :: bytes where
  "crlf = [CHR 0x0D, CHR 0x0A]"

text \<open>Lines 54 and 55: the multipart part that carries one frame.\<close>

definition chunk :: "bytes \<Rightarrow> bytes" where
  "chunk frame_bytes =
     ''--frame'' @ crlf @ ''Content-Type: image/jpeg'' @ crlf @ crlf @ frame_bytes @ crlf"

fun digits :: "nat \<Rightarrow> string" where
  "digits n =
     (if n < 10 then [char_of (48 + n)] else digits (n div 10) @ [char_of (48 + n mod 10)])"

primrec str_source :: "source \<Rightarrow> string" where
  "str_source (Device n) = digits n"
| "str_source (Uri u) = u"

definition error_response :: response where
  "error_response =
     \<lparr>code = 400, status = ''error'', message = ''Could not open video source.''\<rparr>"

definition success_response :: "source \<Rightarrow> response" where
  "success_response u =
     \<lparr>code = 200, status = ''success'', message = ''Stream started from '' @ str_source u\<rparr>"

subsection \<open>The capture loop\<close>

datatype loop_act =
    While
  | Read "frame option"
  | Encode "bytes option"
  | Lock
  | Store
  | Wake

definition goto :: "nat \<Rightarrow> loop_pc \<Rightarrow> app_state \<Rightarrow> app_state" where
  "goto t pc s = s\<lparr>threads := (threads s)[t := pc]\<rparr>"

text \<open>
  One step of thread \<open>t\<close> standing at \<open>pc\<close>.
  \<^item> line 29: the loop ends when \<open>shutdown_flag\<close> is set;
  \<^item> lines 30 to 32 and 37 to 39: with no capture object the body is skipped; a failed
    read starts \<open>time.sleep(2)\<close>;
  \<^item> lines 33 and 34: a failed encode skips the frame;
  \<^item> lines 35 and 36: the frame is stored under the lock, which the end of the
    \<open>with\<close> block gives back;
  \<^item> line 40: \<open>time.sleep(1/30)\<close> ends every iteration.
\<close>

primrec loop_step :: "loop_act \<Rightarrow> loop_pc \<Rightarrow> nat \<Rightarrow> app_state \<Rightarrow> app_state option" where
  "loop_step While pc t s =
     (case pc of
        L_while \<Rightarrow> Some (goto t (if shutdown_flag s then L_stopped else L_read) s)
      | _ \<Rightarrow> None)"
| "loop_step (Read r) pc t s =
     (case pc of
        L_read \<Rightarrow>
          (case video_capture s of
             None \<Rightarrow> Some (goto t (L_pace (now s + pacing)) s)
           | Some h \<Rightarrow>
              (case r of
                 Some fr \<Rightarrow> Some (goto t (L_encode fr) s)
               | None \<Rightarrow> Some (goto t (L_backoff (now s + backoff)) s)))
      | _ \<Rightarrow> None)"
| "loop_step (Encode e) pc t s =
     (case pc of
        L_encode fr \<Rightarrow>
          (case e of
             Some buffer \<Rightarrow> Some (goto t (L_lock buffer) s)
           | None \<Rightarrow> Some (goto t (L_pace (now s + pacing)) s))
      | _ \<Rightarrow> None)"
| "loop_step Lock pc t s =
     (case pc of
        L_lock buffer \<Rightarrow>
          (if lock s = None
           then Some (goto t (L_store buffer) (s\<lparr>lock := Some (Loop_thread t)\<rparr>))
           else None)
      | _ \<Rightarrow> None)"
| "loop_step Store pc t s =
     (case pc of
        L_store buffer \<Rightarrow>
          Some (goto t (L_pace (now s + pacing)) (s\<lparr>output_frame := Some buffer, lock := None\<rparr>))
      | _ \<Rightarrow> None)"
| "loop_step Wake pc t s =
     (case pc of
        L_backoff w \<Rightarrow> (if w \<le> now s then Some (goto t (L_pace (now s + pacing)) s) else None)
      | L_pace w \<Rightarrow> (if w \<le> now s then Some (goto t L_while s) else None)
      | _ \<Rightarrow> None)"

definition video_stream_loop :: "nat \<Rightarrow> loop_act \<Rightarrow> app_state \<Rightarrow> app_state option" where
  "video_stream_loop t a s =
     (if t < length (threads s) then loop_step a (threads s ! t) t s else None)"

subsection \<open>The viewer's generator\<close>

datatype gen_act = GLock | GTest | GYield | GWake

definition vgoto :: "nat \<Rightarrow> gen_pc \<Rightarrow> app_state \<Rightarrow> app_state" where
  "vgoto k pc s = s\<lparr>viewers := (viewers s)[k := (viewers s ! k)\<lparr>gen := pc\<rparr>]\<rparr>"

definition emit :: "nat \<Rightarrow> bytes \<Rightarrow> app_state \<Rightarrow> app_state" where
  "emit k c s = s\<lparr>viewers := (viewers s)[k := (viewers s ! k)\<lparr>sent := sent (viewers s ! k) @ [c]\<rparr>]\<rparr>"

text \<open>
  One step of viewer \<open>k\<close>.
  \<^item> line 49: take the lock;
  \<^item> lines 50 to 52: with no frame yet, \<open>continue\<close> leaves the \<open>with\<close> block (the
    lock is given back) and starts over; otherwise the frame is copied and the lock given
    back;
  \<^item> lines 54 and 55: the part is yielded;
  \<^item> line 56: \<open>time.sleep(1/30)\<close>.
\<close>

primrec gen_step :: "gen_act \<Rightarrow> gen_pc \<Rightarrow> nat \<Rightarrow> app_state \<Rightarrow> app_state option" where
  "gen_step GLock pc k s =
     (case pc of
        G_lock \<Rightarrow>
          (if lock s = None then Some (vgoto k G_test (s\<lparr>lock := Some (Viewer_session k)\<rparr>))
           else None)
      | _ \<Rightarrow> None)"
| "gen_step GTest pc k s =
     (case pc of
        G_test \<Rightarrow>
          (case output_frame s of
             None \<Rightarrow> Some (vgoto k G_lock (s\<lparr>lock := None\<rparr>))
           | Some frame_bytes \<Rightarrow> Some (vgoto k (G_yield frame_bytes) (s\<lparr>lock := None\<rparr>)))
      | _ \<Rightarrow> None)"
| "gen_step GYield pc k s =
     (case pc of
        G_yield frame_bytes \<Rightarrow>
          Some (vgoto k (G_pace (now s + pacing)) (emit k (chunk frame_bytes) s))
      | _ \<Rightarrow> None)"
| "gen_step GWake pc k s =
     (case pc of
        G_pace w \<Rightarrow> (if w \<le> now s then Some (vgoto k G_lock s) else None)
      | _ \<Rightarrow> None)"

definition generate_frames :: "nat \<Rightarrow> gen_act \<Rightarrow> app_state \<Rightarrow> app_state option" where
  "generate_frames k a s =
     (if k < length (viewers s) then gen_step a (gen (viewers s ! k)) k s else None)"

text \<open>Line 61: \<open>video_feed\<close> hands a fresh generator to the response.\<close>

definition video_feed :: "app_state \<Rightarrow> app_state" where
  "video_feed s = s\<lparr>viewers := viewers s @ [\<lparr>gen = G_lock, sent = []\<rparr>]\<rparr>"

subsection \<open>The request handler\<close>

text \<open>What \<open>cv2.VideoCapture(stream_url)\<close> does at line 78: it returns an opened
  capture, returns one that is not opened, or raises.\<close>

datatype open_result = Opened | Not_opened | Open_raised

datatype req_act =
    Alive bool
  | Set_flag
  | Joined
  | Timeout
  | Release
  | Clear_flag
  | Open open_result
  | Is_opened bool
  | Spawn

text \<open>Line 71: \<open>app_state["capture_thread"] and app_state["capture_thread"].is_alive()\<close>.\<close>

definition is_alive :: "app_state \<Rightarrow> bool" where
  "is_alive s =
     (case capture_thread s of
        None \<Rightarrow> False
      | Some t \<Rightarrow> t < length (threads s) \<and> threads s ! t \<noteq> L_stopped)"

text \<open>Lines 74 and 75.\<close>

definition release :: "app_state \<Rightarrow> app_state" where
  "release s =
     (case video_capture s of
        None \<Rightarrow> s
      | Some h \<Rightarrow>
          s\<lparr>captures := (captures s)[h := (captures s ! h)\<lparr>releases := Suc (releases (captures s ! h))\<rparr>]\<rparr>)"

text \<open>Line 78, when the constructor returns: a new capture object replaces the current
  one; \<open>ok\<close> is whether the source could be opened.\<close>

definition open_capture :: "source \<Rightarrow> bool \<Rightarrow> app_state \<Rightarrow> app_state" where
  "open_capture u ok s =
     s\<lparr>video_capture := Some (length (captures s)),
       captures := captures s @ [\<lparr>src = u, opened = ok, releases = 0\<rparr>]\<rparr>"

text \<open>Line 80: \<open>isOpened()\<close> of the capture object that \<open>app_state\<close> holds
  when the line is reached: the source was opened, and \<open>release()\<close> has not closed it
  since.\<close>

definition is_opened :: "app_state \<Rightarrow> bool" where
  "is_opened s =
     (case video_capture s of
        None \<Rightarrow> False
      | Some h \<Rightarrow>
          h < length (captures s) \<and> opened (captures s ! h) \<and> releases (captures s ! h) = 0)"

text \<open>Lines 84 and 85: a new thread, started at the head of the loop.\<close>

definition spawn :: "app_state \<Rightarrow> app_state" where
  "spawn s = s\<lparr>capture_thread := Some (length (threads s)), threads := threads s @ [L_while]\<rparr>"

definition hgoto :: "nat \<Rightarrow> handler_pc \<Rightarrow> app_state \<Rightarrow> app_state" where
  "hgoto i pc s = s\<lparr>calls := (calls s)[i := pc]\<rparr>"

text \<open>
  One step of call \<open>i\<close> standing at \<open>pc\<close>. Every line reads \<open>app_state\<close> as
  it is when the line is reached, whoever wrote it last. \<open>join(timeout=2)\<close> returns
  when the thread has ended (\<open>Joined\<close>) or, with the thread still alive, once the
  deadline has passed (\<open>Timeout\<close>). When the constructor of line 78 raises, the
  assignment does not happen and the call ends.
\<close>

primrec handler_step :: "req_act \<Rightarrow> handler_pc \<Rightarrow> nat \<Rightarrow> app_state \<Rightarrow> app_state option" where
  "handler_step (Alive b) pc i s =
     (case pc of
        H_alive u \<Rightarrow>
          (if b = is_alive s then Some (hgoto i (if b then H_set u else H_clear u) s) else None)
      | _ \<Rightarrow> None)"
| "handler_step Set_flag pc i s =
     (case pc of
        H_set u \<Rightarrow> Some (hgoto i (H_join u (now s + join_timeout)) (s\<lparr>shutdown_flag := True\<rparr>))
      | _ \<Rightarrow> None)"
| "handler_step Joined pc i s =
     (case pc of
        H_join u d \<Rightarrow> (if \<not> is_alive s then Some (hgoto i (H_release u) s) else None)
      | _ \<Rightarrow> None)"
| "handler_step Timeout pc i s =
     (case pc of
        H_join u d \<Rightarrow>
          (if is_alive s \<and> d \<le> now s then Some (hgoto i (H_release u) s) else None)
      | _ \<Rightarrow> None)"
| "handler_step Release pc i s =
     (case pc of H_release u \<Rightarrow> Some (hgoto i (H_clear u) (release s)) | _ \<Rightarrow> None)"
| "handler_step Clear_flag pc i s =
     (case pc of
        H_clear u \<Rightarrow> Some (hgoto i (H_open u) (s\<lparr>shutdown_flag := False\<rparr>))
      | _ \<Rightarrow> None)"
| "handler_step (Open r) pc i s =
     (case pc of
        H_open u \<Rightarrow>
          (if r = Open_raised then Some (hgoto i (H_raised u) s)
           else Some (hgoto i (H_isopened u) (open_capture u (r = Opened) s)))
      | _ \<Rightarrow> None)"
| "handler_step (Is_opened b) pc i s =
     (case pc of
        H_isopened u \<Rightarrow>
          (if b = is_opened s
           then Some (hgoto i (if b then H_spawn u else H_returned u error_response) s)
           else None)
      | _ \<Rightarrow> None)"
| "handler_step Spawn pc i s =
     (case pc of
        H_spawn u \<Rightarrow> Some (hgoto i (H_returned u (success_response u)) (spawn s))
      | _ \<Rightarrow> None)"

definition start_stream :: "nat \<Rightarrow> req_act \<Rightarrow> app_state \<Rightarrow> app_state option" where
  "start_stream i a s =
     (if i < length (calls s) then handler_step a (calls s ! i) i s else None)"

text \<open>Line 69: a request arrives and a new call starts, whatever the other calls are
  doing.\<close>

definition request :: "source \<Rightarrow> app_state \<Rightarrow> app_state" where
  "request u s = s\<lparr>calls := calls s @ [H_alive u]\<rparr>"

subsection \<open>Schedules\<close>

datatype action =
    Advance rat
  | Capture nat loop_act
  | View nat gen_act
  | Connect
  | Request source
  | Handle nat req_act

primrec step :: "action \<Rightarrow> app_state \<Rightarrow> app_state option" where
  "step (Advance d) s = (if 0 \<le> d then Some (s\<lparr>now := now s + d\<rparr>) else None)"
| "step (Capture t a) s = video_stream_loop t a s"
| "step (View k a) s = generate_frames k a s"
| "step Connect s = Some (video_feed s)"
| "step (Request u) s = Some (request u s)"
| "step (Handle i a) s = start_stream i a s"

primrec run :: "action list \<Rightarrow> app_state \<Rightarrow> app_state option" where
  "run [] s = Some s"
| "run (a # as) s = (case step a s of None \<Rightarrow> None | Some s' \<Rightarrow> run as s')"

subsection \<open>Reading a schedule\<close>

text \<open>Line 36 is the only assignment to \<open>output_frame\<close>.\<close>

fun publishes :: "action \<Rightarrow> bool" where
  "publishes (Capture t Store) = True"
| "publishes _ = False"

text \<open>The buffers that \<open>cv2.imencode\<close> returned in a schedule.\<close>

fun encoded_of :: "action \<Rightarrow> bytes list" where
  "encoded_of (Capture t (Encode (Some buffer))) = [buffer]"
| "encoded_of _ = []"

definition encoded :: "action list \<Rightarrow> bytes list" where
  "encoded as = concat (map encoded_of as)"

text \<open>Every buffer in flight, stored or sent comes from the list \<open>E\<close>.\<close>

fun pc_from :: "bytes list \<Rightarrow> loop_pc \<Rightarrow> bool" where
  "pc_from E (L_lock b) = (b \<in> set E)"
| "pc_from E (L_store b) = (b \<in> set E)"
| "pc_from E _ = True"

fun gen_from :: "bytes list \<Rightarrow> gen_pc \<Rightarrow> bool" where
  "gen_from E (G_yield f) = (f \<in> set E)"
| "gen_from E _ = True"

definition viewer_from :: "bytes list \<Rightarrow> viewer \<Rightarrow> bool" where
  "viewer_from E v \<longleftrightarrow> gen_from E (gen v) \<and> set (sent v) \<subseteq> chunk ` set E"

definition frames_from :: "bytes list \<Rightarrow> app_state \<Rightarrow> bool" where
  "frames_from E s \<longleftrightarrow>
     (\<forall>b. output_frame s = Some b \<longrightarrow> b \<in> set E) \<and>
     list_all (pc_from E) (threads s) \<and> list_all (viewer_from E) (viewers s)"

subsection \<open>Example schedules\<close>

text \<open>A first request on a working device; its thread reads, encodes and stores one
  frame.\<close>

definition first_stream :: "action list" where
  "first_stream =
     [Request (Device 0), Handle 0 (Alive False), Handle 0 Clear_flag, Handle 0 (Open Opened),
      Handle 0 (Is_opened True), Handle 0 Spawn,
      Capture 0 While, Capture 0 (Read (Some ''raw'')), Capture 0 (Encode (Some ''jpg'')),
      Capture 0 Lock, Capture 0 Store]"

text \<open>Then a request for a source that does not open; the running thread sees the flag
  after its pacing sleep and ends before \<open>join\<close> gives up.\<close>

definition failed_switch :: "action list" where
  "failed_switch =
     [Request (Uri ''bad://nowhere''), Handle 1 (Alive True), Handle 1 Set_flag,
      Advance (1 / 30), Capture 0 Wake, Capture 0 While, Handle 1 Joined, Handle 1 Release,
      Handle 1 Clear_flag, Handle 1 (Open Not_opened), Handle 1 (Is_opened False)]"

text \<open>A viewer that has sent nothing and is still polling for a first frame.\<close>

definition polling :: "viewer \<Rightarrow> bool" where
  "polling v \<longleftrightarrow> sent v = [] \<and> (gen v = G_lock \<or> gen v = G_test)"

text \<open>A viewer connects before any frame exists and polls once.\<close>

definition early_viewer :: "action list" where
  "early_viewer = [Connect, View 0 GLock, View 0 GTest]"

text \<open>The same viewer after the first frame has been stored: it copies the frame and
  yields one part.\<close>

definition watching :: "action list" where
  "watching = early_viewer @ first_stream @ [View 0 GLock, View 0 GTest, View 0 GYield]"

text \<open>Who may hold the lock: a capture thread at line 36, a viewer at lines 50 to 52.\<close>

fun storing :: "loop_pc \<Rightarrow> bool" where
  "storing (L_store b) = True"
| "storing _ = False"

fun holder_at :: "app_state \<Rightarrow> owner \<Rightarrow> bool" where
  "holder_at s (Loop_thread t) = (t < length (threads s) \<and> storing (threads s ! t))"
| "holder_at s (Viewer_session k) = (k < length (viewers s) \<and> gen (viewers s ! k) = G_test)"

definition lock_held_briefly :: "app_state \<Rightarrow> bool" where
  "lock_held_briefly s \<longleftrightarrow> (\<forall>w. lock s = Some w \<longrightarrow> holder_at s w)"

text \<open>Where a thread that started \<open>time.sleep(2)\<close> with wake-up time \<open>w\<close> can be at
  time \<open>n\<close>: still in that sleep, in the pacing sleep that follows it, or anywhere once
  both have passed.\<close>

fun past_backoff :: "rat \<Rightarrow> rat \<Rightarrow> loop_pc \<Rightarrow> bool" where
  "past_backoff w n (L_backoff w') = (w' = w \<or> w + pacing \<le> n)"
| "past_backoff w n (L_pace w') = (w + pacing \<le> w' \<or> w + pacing \<le> n)"
| "past_backoff w n _ = (w + pacing \<le> n)"

text \<open>A stream whose first read fails; half a time unit into the backoff a second request
  arrives and sets the flag; then one more time unit passes.\<close>

definition failing_read :: "action list" where
  "failing_read =
     [Request (Device 0), Handle 0 (Alive False), Handle 0 Clear_flag, Handle 0 (Open Opened),
      Handle 0 (Is_opened True), Handle 0 Spawn, Capture 0 While, Capture 0 (Read None)]"

definition cancelled_in_backoff :: "action list" where
  "cancelled_in_backoff =
     failing_read @
     [Advance (1 / 2), Request (Uri ''rtsp://b''), Handle 1 (Alive True), Handle 1 Set_flag,
      Advance 1]"

text \<open>The thread leaves only when both sleeps are over, here with the flag still set.\<close>

definition leaves_after_backoff :: "action list" where
  "leaves_after_backoff =
     [Advance (1 / 2), Capture 0 Wake, Advance (1 / 30), Capture 0 Wake, Capture 0 While]"

text \<open>A stream whose first read fails and whose second frame cannot be encoded; nobody
  sets the flag.\<close>

definition bad_frames :: "action list" where
  "bad_frames =
     [Advance 2, Capture 0 Wake, Advance (1 / 30), Capture 0 Wake, Capture 0 While,
      Capture 0 (Read (Some ''raw'')), Capture 0 (Encode None)]"

text \<open>The frames that viewer \<open>k\<close> copies out of the slot at line 52 while a schedule
  runs from \<open>s\<close>, one for each of its passes through lines 50 to 52 that finds a
  frame.\<close>

primrec copied :: "nat \<Rightarrow> action list \<Rightarrow> app_state \<Rightarrow> bytes list" where
  "copied k [] s = []"
| "copied k (a # as) s =
     (case step a s of
        None \<Rightarrow> []
      | Some s' \<Rightarrow>
          (if a = View k GTest then (case output_frame s of None \<Rightarrow> [] | Some f \<Rightarrow> [f]) else [])
          @ copied k as s')"

text \<open>What a viewer has been sent, followed by the part it is about to yield.\<close>

fun pending :: "gen_pc \<Rightarrow> bytes list" where
  "pending (G_yield f) = [chunk f]"
| "pending _ = []"

definition outbox :: "app_state \<Rightarrow> nat \<Rightarrow> bytes list" where
  "outbox s k =
     (if k < length (viewers s) then sent (viewers s ! k) @ pending (gen (viewers s ! k))
      else [])"

subsection \<open>The steps of one call\<close>

fun req_of :: "nat \<Rightarrow> action \<Rightarrow> req_act list" where
  "req_of i (Handle j a) = (if i = j then [a] else [])"
| "req_of i _ = []"

text \<open>The steps that call \<open>i\<close> takes in a schedule, in order.\<close>

definition call_trace :: "nat \<Rightarrow> action list \<Rightarrow> req_act list" where
  "call_trace i as = concat (map (req_of i) as)"

text \<open>\<open>x\<close> occurs in \<open>xs\<close>, and \<open>y\<close> occurs after its first occurrence and not
  before.\<close>

definition comes_before :: "'a \<Rightarrow> 'a \<Rightarrow> 'a list \<Rightarrow> bool" where
  "comes_before x y xs \<longleftrightarrow>
     y \<in> set (dropWhile (\<lambda>z. z \<noteq> x) xs) \<and> y \<notin> set (takeWhile (\<lambda>z. z \<noteq> x) xs)"

text \<open>The ways of a call to line 77, to line 80, and to its end.\<close>

definition to_clear :: "req_act list list" where
  "to_clear =
     [[Alive False],
      [Alive True, Set_flag, Joined, Release],
      [Alive True, Set_flag, Timeout, Release]]"

definition to_test :: "req_act list list" where
  "to_test =
     map (\<lambda>p. p @ [Clear_flag, Open Opened]) to_clear @
     map (\<lambda>p. p @ [Clear_flag, Open Not_opened]) to_clear"

primrec call_at :: "handler_pc \<Rightarrow> req_act list \<Rightarrow> bool" where
  "call_at (H_alive u) seg = (seg = [])"
| "call_at (H_set u) seg = (seg = [Alive True])"
| "call_at (H_join u d) seg = (seg = [Alive True, Set_flag])"
| "call_at (H_release u) seg =
     (seg = [Alive True, Set_flag, Joined] \<or> seg = [Alive True, Set_flag, Timeout])"
| "call_at (H_clear u) seg = (seg \<in> set to_clear)"
| "call_at (H_open u) seg = (seg \<in> set (map (\<lambda>p. p @ [Clear_flag]) to_clear))"
| "call_at (H_isopened u) seg = (seg \<in> set to_test)"
| "call_at (H_spawn u) seg = (seg \<in> set (map (\<lambda>p. p @ [Is_opened True]) to_test))"
| "call_at (H_returned u r) seg =
     (r = error_response \<and> seg \<in> set (map (\<lambda>p. p @ [Is_opened False]) to_test) \<or>
      r = success_response u \<and> seg \<in> set (map (\<lambda>p. p @ [Is_opened True, Spawn]) to_test))"
| "call_at (H_raised u) seg =
     (seg \<in> set (map (\<lambda>p. p @ [Clear_flag, Open Open_raised]) to_clear))"

definition calls_in_order :: "app_state \<Rightarrow> action list \<Rightarrow> bool" where
  "calls_in_order s as \<longleftrightarrow>
     (\<forall>i. if i < length (calls s) then call_at (calls s ! i) (call_trace i as)
          else call_trace i as = [])"

subsection \<open>The capture objects of a schedule\<close>

text \<open>
  What the handler steps of a schedule do to the capture objects, read off the schedule
  alone: each is kept as the pair of whether its source was opened and the number of times
  \<open>release()\<close> was called on it. An open that returns adds an object, which is the
  current one from then on; \<open>release()\<close> goes to the current one.
\<close>

fun replay_step :: "(bool \<times> nat) list \<Rightarrow> action \<Rightarrow> (bool \<times> nat) list" where
  "replay_step cs (Handle i (Open r)) = (if r = Open_raised then cs else cs @ [(r = Opened, 0)])"
| "replay_step cs (Handle i Release) =
     cs[length cs - 1 := (fst (last cs), Suc (snd (last cs)))]"
| "replay_step cs _ = cs"

definition replay :: "action list \<Rightarrow> (bool \<times> nat) list" where
  "replay as = foldl replay_step [] as"

text \<open>The steps that put a new capture object into \<open>app_state\<close>.\<close>

fun replaces_capture :: "action \<Rightarrow> bool" where
  "replaces_capture (Handle i (Open r)) = (r \<noteq> Open_raised)"
| "replaces_capture _ = False"

text \<open>The steps that replace the current capture object or close it.\<close>

fun touches_capture :: "action \<Rightarrow> bool" where
  "touches_capture (Handle i (Open r)) = (r \<noteq> Open_raised)"
| "touches_capture (Handle i Release) = True"
| "touches_capture _ = False"

text \<open>Whether the capture object that is current after a schedule is open.\<close>

definition current_open :: "action list \<Rightarrow> bool" where
  "current_open as = (replay as \<noteq> [] \<and> last (replay as) = (True, 0))"

definition handles :: "app_state \<Rightarrow> (bool \<times> nat) list" where
  "handles s = map (\<lambda>c. (opened c, releases c)) (captures s)"

definition current_is_last :: "app_state \<Rightarrow> bool" where
  "current_is_last s \<longleftrightarrow>
     video_capture s = (if captures s = [] then None else Some (length (captures s) - 1))"

text \<open>Two calls in parallel: the first one's open fails, the second one's succeeds before
  the first reaches line 80.\<close>

definition overlapping_calls :: "action list" where
  "overlapping_calls =
     [Request (Uri ''bad://nowhere''), Request (Device 0),
      Handle 0 (Alive False), Handle 0 Clear_flag, Handle 0 (Open Not_opened),
      Handle 1 (Alive False), Handle 1 Clear_flag, Handle 1 (Open Opened),
      Handle 0 (Is_opened True), Handle 0 Spawn]"

subsection \<open>Running capture loops\<close>

definition live_loops :: "app_state \<Rightarrow> nat" where
  "live_loops s = length (filter (\<lambda>pc. pc \<noteq> L_stopped) (threads s))"

text \<open>A call that has not taken its first step, or has ended.\<close>

primrec outside :: "handler_pc \<Rightarrow> bool" where
  "outside (H_alive u) = True"
| "outside (H_set u) = False"
| "outside (H_join u d) = False"
| "outside (H_release u) = False"
| "outside (H_clear u) = False"
| "outside (H_open u) = False"
| "outside (H_isopened u) = False"
| "outside (H_spawn u) = False"
| "outside (H_returned u r) = True"
| "outside (H_raised u) = True"

text \<open>A step of a call taken while no other call is between its first and its last
  step.\<close>

fun alone :: "action \<Rightarrow> app_state \<Rightarrow> bool" where
  "alone (Handle i ha) s = list_all outside (take i (calls s) @ drop (Suc i) (calls s))"
| "alone _ s = True"

text \<open>A schedule in which the calls of \<open>start_stream\<close> are served one after the
  other.\<close>

primrec serial :: "action list \<Rightarrow> app_state \<Rightarrow> bool" where
  "serial [] s = True"
| "serial (a # as) s =
     (case step a s of None \<Rightarrow> True | Some s' \<Rightarrow> alone a s \<and> serial as s')"

text \<open>The lines of \<open>start_stream\<close> after the \<open>join\<close>, and after the test of line 71
  when it found no thread alive, up to the start of the new thread.\<close>

primrec past_join :: "handler_pc \<Rightarrow> bool" where
  "past_join (H_alive u) = False"
| "past_join (H_set u) = False"
| "past_join (H_join u d) = False"
| "past_join (H_release u) = True"
| "past_join (H_clear u) = True"
| "past_join (H_open u) = True"
| "past_join (H_isopened u) = True"
| "past_join (H_spawn u) = True"
| "past_join (H_returned u r) = False"
| "past_join (H_raised u) = False"

definition one_loop :: "app_state \<Rightarrow> bool" where
  "one_loop s \<longleftrightarrow>
     (\<forall>t. t < length (threads s) \<and> threads s ! t \<noteq> L_stopped \<longrightarrow> capture_thread s = Some t) \<and>
     ((\<exists>i. i < length (calls s) \<and> past_join (calls s ! i)) \<longrightarrow>
        (\<forall>t. t < length (threads s) \<longrightarrow> threads s ! t = L_stopped))"

text \<open>The first read fails; a second request arrives shortly after. The old thread
  sleeps 2 + 1/30 before it looks at the flag again, \<open>join\<close> gives up after 2, the flag
  is cleared and a second thread is started; both threads then run their loops and store
  their frames.\<close>

definition stuck_switch :: "action list" where
  "stuck_switch =
     failing_read @
     [Advance (1 / 60), Request (Uri ''rtsp://b''), Handle 1 (Alive True),
      Handle 1 Set_flag, Advance 2, Capture 0 Wake, Handle 1 Timeout, Handle 1 Release,
      Handle 1 Clear_flag, Handle 1 (Open Opened), Handle 1 (Is_opened True), Handle 1 Spawn,
      Advance (1 / 30), Capture 0 Wake, Capture 0 While, Capture 1 While,
      Capture 0 (Read (Some ''raw0'')), Capture 1 (Read (Some ''raw1'')),
      Capture 0 (Encode (Some ''jpg0'')), Capture 1 (Encode (Some ''jpg1'')),
      Capture 0 Lock, Capture 0 Store, Capture 1 Lock, Capture 1 Store]"

text \<open>A switch to a second source in which the old thread ends before \<open>join\<close> gives
  up.\<close>

definition good_switch :: "action list" where
  "good_switch =
     [Request (Uri ''rtsp://b''), Handle 1 (Alive True), Handle 1 Set_flag,
      Advance (1 / 30), Capture 0 Wake, Capture 0 While, Handle 1 Joined, Handle 1 Release,
      Handle 1 Clear_flag, Handle 1 (Open Opened), Handle 1 (Is_opened True), Handle 1 Spawn]"

subsection \<open>How often a capture object is released\<close>










section \<open>Steps, one action at a time\<close>

lemma run_append:
  "run (as @ bs) s = (case run as s of None \<Rightarrow> None | Some s' \<Rightarrow> run bs s')"
  by (induction as arbitrary: s) (auto split: option.splits)

lemma run_snoc:
  "run (as @ [a]) s = (case run as s of None \<Rightarrow> None | Some s' \<Rightarrow> step a s')"
  by (simp add: run_append split: option.splits)

lemma start_stream_Alive:
  "start_stream i (Alive b) s = Some s' \<longleftrightarrow>
     i < length (calls s) \<and>
     (\<exists>u. calls s ! i = H_alive u \<and> b = is_alive s \<and>
        s' = hgoto i (if b then H_set u else H_clear u) s)"
  unfolding start_stream_def by (cases "calls s ! i") auto

lemma start_stream_Set_flag:
  "start_stream i Set_flag s = Some s' \<longleftrightarrow>
     i < length (calls s) \<and>
     (\<exists>u. calls s ! i = H_set u \<and>
        s' = hgoto i (H_join u (now s + join_timeout)) (s\<lparr>shutdown_flag := True\<rparr>))"
  unfolding start_stream_def by (cases "calls s ! i") auto

lemma start_stream_Joined:
  "start_stream i Joined s = Some s' \<longleftrightarrow>
     i < length (calls s) \<and>
     (\<exists>u d. calls s ! i = H_join u d \<and> \<not> is_alive s \<and> s' = hgoto i (H_release u) s)"
  unfolding start_stream_def by (cases "calls s ! i") auto

lemma start_stream_Timeout:
  "start_stream i Timeout s = Some s' \<longleftrightarrow>
     i < length (calls s) \<and>
     (\<exists>u d. calls s ! i = H_join u d \<and> is_alive s \<and> d \<le> now s \<and>
        s' = hgoto i (H_release u) s)"
  unfolding start_stream_def by (cases "calls s ! i") auto

lemma start_stream_Release:
  "start_stream i Release s = Some s' \<longleftrightarrow>
     i < length (calls s) \<and>
     (\<exists>u. calls s ! i = H_release u \<and> s' = hgoto i (H_clear u) (release s))"
  unfolding start_stream_def by (cases "calls s ! i") auto

lemma start_stream_Clear_flag:
  "start_stream i Clear_flag s = Some s' \<longleftrightarrow>
     i < length (calls s) \<and>
     (\<exists>u. calls s ! i = H_clear u \<and> s' = hgoto i (H_open u) (s\<lparr>shutdown_flag := False\<rparr>))"
  unfolding start_stream_def by (cases "calls s ! i") auto

lemma start_stream_Open:
  "start_stream i (Open r) s = Some s' \<longleftrightarrow>
     i < length (calls s) \<and>
     (\<exists>u. calls s ! i = H_open u \<and>
        (r = Open_raised \<and> s' = hgoto i (H_raised u) s \<or>
         r \<noteq> Open_raised \<and> s' = hgoto i (H_isopened u) (open_capture u (r = Opened) s)))"
  unfolding start_stream_def by (cases "calls s ! i") auto

lemma start_stream_Is_opened:
  "start_stream i (Is_opened b) s = Some s' \<longleftrightarrow>
     i < length (calls s) \<and>
     (\<exists>u. calls s ! i = H_isopened u \<and> b = is_opened s \<and>
        s' = hgoto i (if b then H_spawn u else H_returned u error_response) s)"
  unfolding start_stream_def by (cases "calls s ! i") auto

lemma start_stream_Spawn:
  "start_stream i Spawn s = Some s' \<longleftrightarrow>
     i < length (calls s) \<and>
     (\<exists>u. calls s ! i = H_spawn u \<and> s' = hgoto i (H_returned u (success_response u)) (spawn s))"
  unfolding start_stream_def by (cases "calls s ! i") auto

lemmas start_stream_iff =
  start_stream_Alive start_stream_Set_flag start_stream_Joined
  start_stream_Timeout start_stream_Release start_stream_Clear_flag start_stream_Open
  start_stream_Is_opened start_stream_Spawn

lemma loop_While:
  "video_stream_loop t While s = Some s' \<longleftrightarrow>
     t < length (threads s) \<and> threads s ! t = L_while \<and>
     s' = goto t (if shutdown_flag s then L_stopped else L_read) s"
  unfolding video_stream_loop_def by (cases "threads s ! t") auto

lemma loop_Read:
  "video_stream_loop t (Read r) s = Some s' \<longleftrightarrow>
     t < length (threads s) \<and> threads s ! t = L_read \<and>
     s' = goto t (case video_capture s of
                    None \<Rightarrow> L_pace (now s + pacing)
                  | Some h \<Rightarrow> (case r of Some fr \<Rightarrow> L_encode fr
                                | None \<Rightarrow> L_backoff (now s + backoff))) s"
  unfolding video_stream_loop_def by (cases "threads s ! t") (auto split: option.splits)

lemma loop_Encode:
  "video_stream_loop t (Encode e) s = Some s' \<longleftrightarrow>
     t < length (threads s) \<and> (\<exists>fr. threads s ! t = L_encode fr) \<and>
     s' = goto t (case e of Some buffer \<Rightarrow> L_lock buffer | None \<Rightarrow> L_pace (now s + pacing)) s"
  unfolding video_stream_loop_def by (cases "threads s ! t") (auto split: option.splits)

lemma loop_Lock:
  "video_stream_loop t Lock s = Some s' \<longleftrightarrow>
     t < length (threads s) \<and> lock s = None \<and>
     (\<exists>buffer. threads s ! t = L_lock buffer \<and>
        s' = goto t (L_store buffer) (s\<lparr>lock := Some (Loop_thread t)\<rparr>))"
  unfolding video_stream_loop_def by (cases "threads s ! t") auto

lemma loop_Store:
  "video_stream_loop t Store s = Some s' \<longleftrightarrow>
     t < length (threads s) \<and>
     (\<exists>buffer. threads s ! t = L_store buffer \<and>
        s' = goto t (L_pace (now s + pacing)) (s\<lparr>output_frame := Some buffer, lock := None\<rparr>))"
  unfolding video_stream_loop_def by (cases "threads s ! t") auto

lemma loop_Wake:
  "video_stream_loop t Wake s = Some s' \<longleftrightarrow>
     t < length (threads s) \<and>
     ((\<exists>w. threads s ! t = L_backoff w \<and> w \<le> now s \<and> s' = goto t (L_pace (now s + pacing)) s)
      \<or> (\<exists>w. threads s ! t = L_pace w \<and> w \<le> now s \<and> s' = goto t L_while s))"
  unfolding video_stream_loop_def by (cases "threads s ! t") auto

lemmas loop_iff = loop_While loop_Read loop_Encode loop_Lock loop_Store loop_Wake

lemma gen_GLock:
  "generate_frames k GLock s = Some s' \<longleftrightarrow>
     k < length (viewers s) \<and> gen (viewers s ! k) = G_lock \<and> lock s = None \<and>
     s' = vgoto k G_test (s\<lparr>lock := Some (Viewer_session k)\<rparr>)"
  unfolding generate_frames_def by (cases "gen (viewers s ! k)") auto

lemma gen_GTest:
  "generate_frames k GTest s = Some s' \<longleftrightarrow>
     k < length (viewers s) \<and> gen (viewers s ! k) = G_test \<and>
     s' = vgoto k (case output_frame s of None \<Rightarrow> G_lock | Some frame_bytes \<Rightarrow> G_yield frame_bytes)
            (s\<lparr>lock := None\<rparr>)"
  unfolding generate_frames_def by (cases "gen (viewers s ! k)") (auto split: option.splits)

lemma gen_GYield:
  "generate_frames k GYield s = Some s' \<longleftrightarrow>
     k < length (viewers s) \<and>
     (\<exists>frame_bytes. gen (viewers s ! k) = G_yield frame_bytes \<and>
        s' = vgoto k (G_pace (now s + pacing)) (emit k (chunk frame_bytes) s))"
  unfolding generate_frames_def by (cases "gen (viewers s ! k)") auto

lemma gen_GWake:
  "generate_frames k GWake s = Some s' \<longleftrightarrow>
     k < length (viewers s) \<and>
     (\<exists>w. gen (viewers s ! k) = G_pace w \<and> w \<le> now s \<and> s' = vgoto k G_lock s)"
  unfolding generate_frames_def by (cases "gen (viewers s ! k)") auto

lemmas gen_iff = gen_GLock gen_GTest gen_GYield gen_GWake

section \<open>The latest-frame slot\<close>

lemmas effect_defs = goto_def vgoto_def emit_def video_feed_def release_def open_capture_def
  spawn_def hgoto_def request_def

lemma output_frame_kept:
  assumes "step a s = Some s'" and "\<not> publishes a"
  shows "output_frame s' = output_frame s"
proof (cases a)
  case (Advance d)
  with assms show ?thesis by (auto split: if_splits)
next
  case (Capture t la)
  with assms show ?thesis by (cases la) (auto simp: loop_iff effect_defs)
next
  case (View k va)
  with assms show ?thesis by (cases va) (auto simp: gen_iff effect_defs)
next
  case Connect
  with assms show ?thesis by (auto simp: effect_defs)
next
  case (Request u)
  with assms show ?thesis by (auto simp: effect_defs)
next
  case (Handle i ha)
  with assms show ?thesis
    by (cases ha) (auto simp: start_stream_iff effect_defs split: option.splits)
qed

lemma output_frame_published:
  assumes "step a s = Some s'" and "publishes a"
  shows "\<exists>t buffer. a = Capture t Store \<and> t < length (threads s) \<and>
           threads s ! t = L_store buffer \<and> output_frame s' = Some buffer"
  using assms by (cases a rule: publishes.cases) (auto simp: loop_iff effect_defs)

lemma output_frame_run_kept:
  "run as s = Some s' \<Longrightarrow> \<forall>a\<in>set as. \<not> publishes a \<Longrightarrow> output_frame s' = output_frame s"
proof (induction as arbitrary: s)
  case Nil
  then show ?case by simp
next
  case (Cons a as)
  then show ?case by (auto split: option.splits dest: output_frame_kept)
qed

lemma output_frame_step_filled:
  assumes "step a s = Some s'" and "output_frame s \<noteq> None"
  shows "output_frame s' \<noteq> None"
proof (cases "publishes a")
  case True
  with assms output_frame_published show ?thesis by fastforce
next
  case False
  with assms output_frame_kept show ?thesis by simp
qed

lemma output_frame_run_filled:
  "run as s = Some s' \<Longrightarrow> output_frame s \<noteq> None \<Longrightarrow> output_frame s' \<noteq> None"
proof (induction as arbitrary: s)
  case Nil
  then show ?case by simp
next
  case (Cons a as)
  then show ?case by (auto split: option.splits dest: output_frame_step_filled)
qed


lemma list_all_update: "list_all P xs \<Longrightarrow> P x \<Longrightarrow> list_all P (xs[i := x])"
  by (induction xs arbitrary: i) (auto split: nat.splits)

lemma list_all_nth: "list_all P xs \<Longrightarrow> i < length xs \<Longrightarrow> P (xs ! i)"
  by (simp add: list_all_length)

lemma frames_from_kept:
  assumes "step a s = Some s'" and "frames_from E s" and "set (encoded_of a) \<subseteq> set E"
  shows "frames_from E s'"
proof (cases a)
  case (Advance d)
  with assms show ?thesis by (auto simp: frames_from_def split: if_splits)
next
  case (Capture t la)
  with assms have "t < length (threads s)" by (simp add: video_stream_loop_def split: if_splits)
  with assms(2) have "pc_from E (threads s ! t)" by (simp add: frames_from_def list_all_nth)
  with Capture assms show ?thesis
    by (cases la)
      (auto simp: loop_iff effect_defs frames_from_def intro!: list_all_update split: option.splits)
next
  case (View k va)
  with assms have "k < length (viewers s)" by (simp add: generate_frames_def split: if_splits)
  with assms(2) have "viewer_from E (viewers s ! k)" by (simp add: frames_from_def list_all_nth)
  with View assms show ?thesis
    by (cases va)
      (auto simp: gen_iff effect_defs frames_from_def viewer_from_def intro!: list_all_update
         split: option.splits)
next
  case Connect
  with assms show ?thesis
    by (auto simp: effect_defs frames_from_def viewer_from_def)
next
  case (Request u)
  with assms show ?thesis
    by (auto simp: effect_defs frames_from_def viewer_from_def)
next
  case (Handle i ha)
  with assms show ?thesis
    by (cases ha)
      (auto simp: start_stream_iff effect_defs frames_from_def split: option.splits)
qed

lemma pc_from_mono: "pc_from E pc \<Longrightarrow> set E \<subseteq> set E' \<Longrightarrow> pc_from E' pc"
  by (cases pc) auto

lemma gen_from_mono: "gen_from E pc \<Longrightarrow> set E \<subseteq> set E' \<Longrightarrow> gen_from E' pc"
  by (cases pc) auto

lemma viewer_from_mono:
  assumes "viewer_from E v" and "set E \<subseteq> set E'"
  shows "viewer_from E' v"
proof -
  have "chunk ` set E \<subseteq> chunk ` set E'"
    using assms(2) by (rule image_mono)
  with assms show ?thesis
    unfolding viewer_from_def by (blast intro: gen_from_mono)
qed

lemma frames_from_mono: "frames_from E s \<Longrightarrow> set E \<subseteq> set E' \<Longrightarrow> frames_from E' s"
  unfolding frames_from_def list_all_iff
  by (blast intro: pc_from_mono viewer_from_mono)

lemma frames_from_step:
  assumes "step a s = Some s'" and "frames_from E s"
  shows "frames_from (E @ encoded_of a) s'"
  by (rule frames_from_kept [OF assms(1)]) (auto intro: frames_from_mono [OF assms(2)])

lemma encoded_snoc: "encoded (as @ [a]) = encoded as @ encoded_of a"
  by (simp add: encoded_def)

lemma frames_from_init: "frames_from [] init"
  by (simp add: frames_from_def init_def)

lemma frames_from_run:
  "run as init = Some s \<Longrightarrow> frames_from (encoded as) s"
proof (induction as arbitrary: s rule: rev_induct)
  case Nil
  then show ?case by (simp add: encoded_def frames_from_init)
next
  case (snoc a as)
  then show ?case
    by (auto simp: run_snoc encoded_snoc split: option.splits intro: frames_from_step)
qed



lemmas run_defs = init_def video_stream_loop_def generate_frames_def start_stream_def
  effect_defs is_alive_def is_opened_def backoff_def pacing_def join_timeout_def

text \<open>
  Claim C10: once a frame has been stored, the latest-frame slot is never empty again.
  From a reachable state whose slot holds \<open>f\<close>, every schedule (requests that switch
  the source or fail to open it included) ends with the slot holding a buffer that
  \<open>cv2.imencode\<close> returned; and as long as no thread executes line 36 it still holds
  \<open>f\<close>.
\<close>

theorem latest_frame_never_reset:
  assumes "run as init = Some s" and "run bs s = Some s'" and "output_frame s = Some f"
  shows "(\<exists>g. output_frame s' = Some g \<and> g \<in> set (encoded (as @ bs))) \<and>
         ((\<forall>a\<in>set bs. \<not> publishes a) \<longrightarrow> output_frame s' = Some f)"
proof -
  from assms(1,2) have "run (as @ bs) init = Some s'"
    by (simp add: run_append)
  then have "frames_from (encoded (as @ bs)) s'"
    by (rule frames_from_run)
  moreover from assms(2,3) have "output_frame s' \<noteq> None"
    by (auto dest: output_frame_run_filled)
  ultimately have "\<exists>g. output_frame s' = Some g \<and> g \<in> set (encoded (as @ bs))"
    by (auto simp: frames_from_def)
  moreover from assms(2,3) have "(\<forall>a\<in>set bs. \<not> publishes a) \<longrightarrow> output_frame s' = Some f"
    by (auto dest: output_frame_run_kept)
  ultimately show ?thesis by blast
qed

theorem latest_frame_never_reset_witness:
  "\<exists>s s'. run first_stream init = Some s \<and> run failed_switch s = Some s' \<and>
     output_frame s = Some ''jpg'' \<and> output_frame s' = Some ''jpg'' \<and>
     calls s' ! 1 = H_returned (Uri ''bad://nowhere'') error_response"
proof -
  define s where "s = the (run first_stream init)"
  define s' where "s' = the (run failed_switch s)"
  have a: "run first_stream init = Some s"
    unfolding s_def by (simp add: first_stream_def run_defs)
  have b: "run failed_switch s = Some s'"
    unfolding s'_def s_def by (simp add: first_stream_def failed_switch_def run_defs)
  have f: "output_frame s = Some ''jpg''"
    unfolding s_def by (simp add: first_stream_def run_defs)
  have r: "calls s' ! 1 = H_returned (Uri ''bad://nowhere'') error_response"
    unfolding s'_def s_def by (simp add: first_stream_def failed_switch_def run_defs)
  have "\<forall>a\<in>set failed_switch. \<not> publishes a"
    by (simp add: failed_switch_def)
  with latest_frame_never_reset [OF a b f] have "output_frame s' = Some ''jpg''"
    by blast
  with a b f r show ?thesis by blast
qed

section \<open>Last write wins\<close>

text \<open>
  Claim C4: the slot starts empty; a schedule in which no thread executes line 36 leaves
  it as it was (so it stays empty before the first store, and holds the stored frame until
  the next store); line 36 puts the thread's buffer there; and a viewer standing at line
  50 always completes its read, whether or not the slot has changed since its last one.
\<close>

theorem frame_buffer_last_write_wins:
  "output_frame init = None \<and>
   (\<forall>as s s'. run as s = Some s' \<and> (\<forall>a\<in>set as. \<not> publishes a) \<longrightarrow>
      output_frame s' = output_frame s) \<and>
   (\<forall>t s s'. step (Capture t Store) s = Some s' \<longrightarrow>
      (\<exists>f. threads s ! t = L_store f \<and> output_frame s' = Some f)) \<and>
   (\<forall>k s. k < length (viewers s) \<and> gen (viewers s ! k) = G_test \<longrightarrow>
      (\<exists>s'. step (View k GTest) s = Some s' \<and> output_frame s' = output_frame s \<and>
         gen (viewers s' ! k) =
           (case output_frame s of None \<Rightarrow> G_lock | Some f \<Rightarrow> G_yield f)))"
proof (intro conjI allI impI)
  show "output_frame init = None"
    by (simp add: init_def)
next
  fix as s s'
  assume "run as s = Some s' \<and> (\<forall>a\<in>set as. \<not> publishes a)"
  then show "output_frame s' = output_frame s"
    by (auto dest: output_frame_run_kept)
next
  fix t s s'
  assume "step (Capture t Store) s = Some s'"
  then show "\<exists>f. threads s ! t = L_store f \<and> output_frame s' = Some f"
    by (auto simp: loop_iff effect_defs)
next
  fix k and s :: app_state
  assume "k < length (viewers s) \<and> gen (viewers s ! k) = G_test"
  then show "\<exists>s'. step (View k GTest) s = Some s' \<and> output_frame s' = output_frame s \<and>
         gen (viewers s' ! k) =
           (case output_frame s of None \<Rightarrow> G_lock | Some f \<Rightarrow> G_yield f)"
    by (simp add: gen_iff effect_defs)
qed

theorem frame_buffer_last_write_wins_witness:
  "\<exists>s s'. run first_stream init = Some s \<and> run failed_switch s = Some s' \<and>
     output_frame s = Some ''jpg'' \<and> output_frame s' = output_frame s"
proof -
  define s where "s = the (run first_stream init)"
  define s' where "s' = the (run failed_switch s)"
  have a: "run first_stream init = Some s"
    unfolding s_def by (simp add: first_stream_def run_defs)
  have b: "run failed_switch s = Some s'"
    unfolding s'_def s_def by (simp add: first_stream_def failed_switch_def run_defs)
  have f: "output_frame s = Some ''jpg''"
    unfolding s_def by (simp add: first_stream_def run_defs)
  have n: "\<forall>a\<in>set failed_switch. \<not> publishes a"
    by (simp add: failed_switch_def)
  from frame_buffer_last_write_wins have
    "\<forall>as s s'. run as s = Some s' \<and> (\<forall>a\<in>set as. \<not> publishes a) \<longrightarrow>
       output_frame s' = output_frame s"
    by blast
  with b n have "output_frame s' = output_frame s"
    by blast
  with a b f show ?thesis
    by blast
qed

section \<open>The lock\<close>

lemma holder_at_Advance: "holder_at (s\<lparr>now := x\<rparr>) w = holder_at s w"
  by (cases w) simp_all

lemma holder_at_calls: "holder_at (s\<lparr>calls := x\<rparr>) w = holder_at s w"
  by (cases w) simp_all

lemma holder_at_goto:
  "holder_at s w \<Longrightarrow> w \<noteq> Loop_thread t \<Longrightarrow> holder_at (goto t pc s) w"
  by (cases w) (auto simp: goto_def)

lemma holder_at_vgoto:
  "holder_at s w \<Longrightarrow> w \<noteq> Viewer_session k \<Longrightarrow> holder_at (vgoto k pc s) w"
  by (cases w) (auto simp: vgoto_def)

lemma holder_at_viewers_update:
  "holder_at s w \<Longrightarrow> w \<noteq> Viewer_session k \<Longrightarrow>
     holder_at (s\<lparr>viewers := (viewers s)[k := v]\<rparr>) w"
  by (cases w) auto

lemma holder_at_grow:
  assumes "lock_held_briefly s" and "lock s' = lock s"
    and "threads s' = threads s @ xs" and "viewers s' = viewers s @ ys"
  shows "lock_held_briefly s'"
  unfolding lock_held_briefly_def
proof (intro allI impI)
  fix w
  assume "lock s' = Some w"
  with assms(1,2) have "holder_at s w"
    by (simp add: lock_held_briefly_def)
  with assms(3,4) show "holder_at s' w"
    by (cases w) (auto simp: nth_append)
qed

lemma lock_loop_step:
  assumes "video_stream_loop t la s = Some s'" and "lock_held_briefly s"
  shows "lock_held_briefly s'"
proof (cases "lock s = Some (Loop_thread t)")
  case True
  with assms(2) have "storing (threads s ! t)" "t < length (threads s)"
    by (auto simp: lock_held_briefly_def)
  with assms(1) show ?thesis
    by (cases la) (auto simp: loop_iff goto_def lock_held_briefly_def)
next
  case False
  with assms show ?thesis
    by (cases la)
      (auto simp: loop_iff lock_held_briefly_def goto_def intro: holder_at_goto [unfolded goto_def]
         split: option.splits)
qed

lemma lock_gen_step:
  assumes "generate_frames k va s = Some s'" and "lock_held_briefly s"
  shows "lock_held_briefly s'"
proof (cases "lock s = Some (Viewer_session k)")
  case True
  with assms(2) have "gen (viewers s ! k) = G_test" "k < length (viewers s)"
    by (auto simp: lock_held_briefly_def)
  with assms(1) show ?thesis
    by (cases va) (auto simp: gen_iff vgoto_def lock_held_briefly_def)
next
  case False
  with assms show ?thesis
    by (cases va)
      (auto simp: gen_iff lock_held_briefly_def vgoto_def emit_def
         intro: holder_at_viewers_update split: option.splits)
qed

lemma lock_handler_step:
  assumes "start_stream i ha s = Some s'" and "lock_held_briefly s"
  shows "lock_held_briefly s'"
proof -
  from assms(1) obtain xs where "lock s' = lock s" "threads s' = threads s @ xs"
      "viewers s' = viewers s @ []"
    by (cases ha) (auto simp: start_stream_iff effect_defs split: option.splits)
  with assms(2) show ?thesis
    by (rule holder_at_grow)
qed

lemma lock_held_briefly_step:
  assumes "step a s = Some s'" and "lock_held_briefly s"
  shows "lock_held_briefly s'"
proof (cases a)
  case (Advance d)
  with assms show ?thesis
    by (auto simp: lock_held_briefly_def holder_at_Advance split: if_splits)
next
  case (Capture t la)
  with assms show ?thesis by (auto intro: lock_loop_step)
next
  case (View k va)
  with assms show ?thesis by (auto intro: lock_gen_step)
next
  case Connect
  with assms have "lock s' = lock s" "threads s' = threads s @ []"
      "viewers s' = viewers s @ [\<lparr>gen = G_lock, sent = []\<rparr>]"
    by (auto simp: video_feed_def)
  with assms(2) show ?thesis
    by (rule holder_at_grow)
next
  case (Request u)
  with assms have "lock s' = lock s" "threads s' = threads s @ []"
      "viewers s' = viewers s @ []"
    by (auto simp: request_def)
  with assms(2) show ?thesis
    by (rule holder_at_grow)
next
  case (Handle i ha)
  with assms show ?thesis by (auto intro: lock_handler_step)
qed

lemma lock_held_briefly_run:
  "run as init = Some s \<Longrightarrow> lock_held_briefly s"
proof (induction as arbitrary: s rule: rev_induct)
  case Nil
  then show ?case by (auto simp: init_def lock_held_briefly_def)
next
  case (snoc a as)
  then show ?case
    by (auto simp: run_snoc split: option.splits intro: lock_held_briefly_step)
qed

text \<open>
  Claim C9: nobody sleeps or yields while holding the lock. In every reachable state a
  capture thread that holds the lock stands at line 36 and a viewer that holds it stands
  at lines 50 to 52; so a thread in its backoff or pacing sleep, and a viewer yielding a
  part or in its pacing sleep, does not hold it.
\<close>

theorem no_suspension_under_lock:
  assumes "run as init = Some s"
  shows "(\<forall>t. lock s = Some (Loop_thread t) \<longrightarrow>
            t < length (threads s) \<and> (\<exists>b. threads s ! t = L_store b)) \<and>
         (\<forall>k. lock s = Some (Viewer_session k) \<longrightarrow>
            k < length (viewers s) \<and> gen (viewers s ! k) = G_test) \<and>
         (\<forall>t w. threads s ! t = L_backoff w \<or> threads s ! t = L_pace w \<longrightarrow>
            lock s \<noteq> Some (Loop_thread t)) \<and>
         (\<forall>k f w. gen (viewers s ! k) = G_yield f \<or> gen (viewers s ! k) = G_pace w \<longrightarrow>
            lock s \<noteq> Some (Viewer_session k))"
proof -
  from assms have inv: "lock_held_briefly s"
    by (rule lock_held_briefly_run)
  have loop: "t < length (threads s) \<and> (\<exists>b. threads s ! t = L_store b)"
    if "lock s = Some (Loop_thread t)" for t
  proof -
    from inv that have "holder_at s (Loop_thread t)"
      by (simp add: lock_held_briefly_def)
    then show ?thesis
      by (cases "threads s ! t") simp_all
  qed
  have view: "k < length (viewers s) \<and> gen (viewers s ! k) = G_test"
    if "lock s = Some (Viewer_session k)" for k
    using inv that by (auto simp: lock_held_briefly_def)
  from loop have "\<forall>t w. threads s ! t = L_backoff w \<or> threads s ! t = L_pace w \<longrightarrow>
      lock s \<noteq> Some (Loop_thread t)"
    by fastforce
  moreover from view have "\<forall>k f w. gen (viewers s ! k) = G_yield f \<or>
      gen (viewers s ! k) = G_pace w \<longrightarrow> lock s \<noteq> Some (Viewer_session k)"
    by fastforce
  ultimately show ?thesis
    using loop view by blast
qed

theorem no_suspension_under_lock_witness:
  "\<exists>s s'. run (butlast first_stream) init = Some s \<and> lock s = Some (Loop_thread 0) \<and>
     (\<exists>b. threads s ! 0 = L_store b) \<and>
     run watching init = Some s' \<and> gen (viewers s' ! 0) = G_pace (1 / 30) \<and>
     threads s' ! 0 = L_pace (1 / 30) \<and> lock s' = None"
proof -
  define s where "s = the (run (butlast first_stream) init)"
  define s' where "s' = the (run watching init)"
  have a: "run (butlast first_stream) init = Some s"
    unfolding s_def by (simp add: first_stream_def run_defs)
  have l: "lock s = Some (Loop_thread 0)"
    unfolding s_def by (simp add: first_stream_def run_defs)
  have b: "run watching init = Some s'"
    unfolding s'_def by (simp add: watching_def early_viewer_def first_stream_def run_defs)
  have c: "gen (viewers s' ! 0) = G_pace (1 / 30)"
    unfolding s'_def by (simp add: watching_def early_viewer_def first_stream_def run_defs)
  have d: "threads s' ! 0 = L_pace (1 / 30)"
    unfolding s'_def by (simp add: watching_def early_viewer_def first_stream_def run_defs)
  have e: "lock s' = None"
    unfolding s'_def by (simp add: watching_def early_viewer_def first_stream_def run_defs)
  from no_suspension_under_lock [OF a] l have "\<exists>b. threads s ! 0 = L_store b"
    by blast
  with a l b c d e show ?thesis
    by blast
qed

section \<open>The capture loop in time\<close>

lemma step_now_mono: "step a s = Some s' \<Longrightarrow> now s \<le> now s'"
proof (cases a)
  case (Advance d)
  then show "step a s = Some s' \<Longrightarrow> now s \<le> now s'" by (auto split: if_splits)
next
  case (Capture t la)
  then show "step a s = Some s' \<Longrightarrow> now s \<le> now s'"
    by (cases la) (auto simp: loop_iff effect_defs)
next
  case (View k va)
  then show "step a s = Some s' \<Longrightarrow> now s \<le> now s'"
    by (cases va) (auto simp: gen_iff effect_defs)
next
  case Connect
  then show "step a s = Some s' \<Longrightarrow> now s \<le> now s'" by (auto simp: effect_defs)
next
  case (Request u)
  then show "step a s = Some s' \<Longrightarrow> now s \<le> now s'" by (auto simp: effect_defs)
next
  case (Handle i ha)
  then show "step a s = Some s' \<Longrightarrow> now s \<le> now s'"
    by (cases ha) (auto simp: start_stream_iff effect_defs split: option.splits)
qed

lemma step_thread_kept:
  assumes "step a s = Some s'" and "t < length (threads s)" and "\<forall>la. a \<noteq> Capture t la"
  shows "threads s' ! t = threads s ! t \<and> t < length (threads s')"
proof (cases a)
  case (Advance d)
  with assms show ?thesis by (auto split: if_splits)
next
  case (Capture t' la)
  with assms have "t' \<noteq> t" by auto
  with Capture assms show ?thesis
    by (cases la) (auto simp: loop_iff effect_defs)
next
  case (View k va)
  with assms show ?thesis by (cases va) (auto simp: gen_iff effect_defs)
next
  case Connect
  with assms show ?thesis by (auto simp: effect_defs)
next
  case (Request u)
  with assms show ?thesis by (auto simp: effect_defs)
next
  case (Handle i ha)
  with assms show ?thesis
    by (cases ha) (auto simp: start_stream_iff effect_defs nth_append split: option.splits)
qed

lemma step_threads_grow: "step a s = Some s' \<Longrightarrow> length (threads s) \<le> length (threads s')"
proof (cases a)
  case (Advance d)
  then show "step a s = Some s' \<Longrightarrow> length (threads s) \<le> length (threads s')"
    by (auto split: if_splits)
next
  case (Capture t la)
  then show "step a s = Some s' \<Longrightarrow> length (threads s) \<le> length (threads s')"
    by (cases la) (auto simp: loop_iff effect_defs)
next
  case (View k va)
  then show "step a s = Some s' \<Longrightarrow> length (threads s) \<le> length (threads s')"
    by (cases va) (auto simp: gen_iff effect_defs)
next
  case Connect
  then show "step a s = Some s' \<Longrightarrow> length (threads s) \<le> length (threads s')"
    by (auto simp: effect_defs)
next
  case (Request u)
  then show "step a s = Some s' \<Longrightarrow> length (threads s) \<le> length (threads s')"
    by (auto simp: effect_defs)
next
  case (Handle i ha)
  then show "step a s = Some s' \<Longrightarrow> length (threads s) \<le> length (threads s')"
    by (cases ha) (auto simp: start_stream_iff effect_defs split: option.splits)
qed

lemma past_backoff_later: "past_backoff w n pc \<Longrightarrow> n \<le> n' \<Longrightarrow> past_backoff w n' pc"
  by (cases pc) auto

lemma past_backoff_step:
  assumes "step a s = Some s'" and "t < length (threads s)"
    and "past_backoff w (now s) (threads s ! t)"
  shows "past_backoff w (now s') (threads s' ! t)"
proof (cases "\<exists>la. a = Capture t la")
  case False
  with assms(1,2) have "threads s' ! t = threads s ! t"
    by (simp add: step_thread_kept)
  with assms(3) step_now_mono [OF assms(1)] show ?thesis
    by (auto intro: past_backoff_later)
next
  case True
  then obtain la where "a = Capture t la" ..
  with assms show ?thesis
    by (cases la) (auto simp: loop_iff effect_defs pacing_def split: option.splits)
qed

lemma past_backoff_run:
  "run as s = Some s' \<Longrightarrow> t < length (threads s) \<Longrightarrow> past_backoff w (now s) (threads s ! t) \<Longrightarrow>
     past_backoff w (now s') (threads s' ! t)"
proof (induction as arbitrary: s)
  case Nil
  then show ?case by simp
next
  case (Cons a as)
  from Cons.prems(1) obtain s1 where s1: "step a s = Some s1" "run as s1 = Some s'"
    by (auto split: option.splits)
  from s1(1) Cons.prems(2) have "t < length (threads s1)"
    using step_threads_grow by fastforce
  moreover from s1(1) Cons.prems(2,3) have "past_backoff w (now s1) (threads s1 ! t)"
    by (rule past_backoff_step)
  ultimately show ?case
    using s1(2) by (rule Cons.IH [rotated])
qed

section \<open>Failures inside the capture loop\<close>

lemma loop_ends_by_flag:
  assumes "step a s = Some s'" and "t < length (threads s)"
    and "threads s ! t \<noteq> L_stopped" and "threads s' ! t = L_stopped"
  shows "a = Capture t While \<and> shutdown_flag s"
proof (cases "\<exists>la. a = Capture t la")
  case False
  with assms(1,2) have "threads s' ! t = threads s ! t"
    by (simp add: step_thread_kept)
  with assms(3,4) show ?thesis by simp
next
  case True
  then obtain la where "a = Capture t la" ..
  with assms show ?thesis
    by (cases la) (auto simp: loop_iff effect_defs split: option.splits if_splits)
qed

lemma flag_set_by_handler:
  assumes "step a s = Some s'" and "\<not> shutdown_flag s" and "\<forall>i. a \<noteq> Handle i Set_flag"
  shows "\<not> shutdown_flag s'"
proof (cases a)
  case (Advance d)
  with assms show ?thesis by (auto split: if_splits)
next
  case (Capture t la)
  with assms show ?thesis by (cases la) (auto simp: loop_iff effect_defs)
next
  case (View k va)
  with assms show ?thesis by (cases va) (auto simp: gen_iff effect_defs)
next
  case Connect
  with assms show ?thesis by (auto simp: effect_defs)
next
  case (Request u)
  with assms show ?thesis by (auto simp: effect_defs)
next
  case (Handle i ha)
  with assms show ?thesis
    by (cases ha) (auto simp: start_stream_iff effect_defs split: option.splits)
qed

lemma loop_runs_without_flag:
  "run as s = Some s' \<Longrightarrow> \<not> shutdown_flag s \<Longrightarrow> \<forall>i. Handle i Set_flag \<notin> set as \<Longrightarrow>
     t < length (threads s) \<Longrightarrow> threads s ! t \<noteq> L_stopped \<Longrightarrow> threads s' ! t \<noteq> L_stopped"
proof (induction as arbitrary: s)
  case Nil
  then show ?case by simp
next
  case (Cons a as)
  from Cons.prems(1) obtain s1 where s1: "step a s = Some s1" "run as s1 = Some s'"
    by (auto split: option.splits)
  from s1(1) Cons.prems(2,3) have "\<not> shutdown_flag s1"
    by (auto dest: flag_set_by_handler)
  moreover from s1(1) Cons.prems(4) have "t < length (threads s1)"
    using step_threads_grow by fastforce
  moreover from s1(1) Cons.prems(2,4,5) have "threads s1 ! t \<noteq> L_stopped"
    using loop_ends_by_flag by blast
  moreover from Cons.prems(3) have "\<forall>i. Handle i Set_flag \<notin> set as"
    by simp
  ultimately show ?case
    using s1(2) Cons.IH by blast
qed

lemma loop_back_through_pacing:
  assumes "step a s = Some s'" and "t < length (threads s)"
    and "threads s ! t \<noteq> L_while" and "threads s' ! t = L_while"
  shows "a = Capture t Wake \<and> (\<exists>w. threads s ! t = L_pace w \<and> w \<le> now s)"
proof (cases "\<exists>la. a = Capture t la")
  case False
  with assms(1,2) have "threads s' ! t = threads s ! t"
    by (simp add: step_thread_kept)
  with assms(3,4) show ?thesis by simp
next
  case True
  then obtain la where "a = Capture t la" ..
  with assms show ?thesis
    by (cases la) (auto simp: loop_iff effect_defs split: option.splits if_splits)
qed

lemma pacing_sleep_full:
  assumes "step a s = Some s'" and "t < length (threads s)"
    and "threads s ! t \<noteq> L_pace w" and "threads s' ! t = L_pace w"
  shows "w = now s + 1 / 30"
proof (cases "\<exists>la. a = Capture t la")
  case False
  with assms(1,2) have "threads s' ! t = threads s ! t"
    by (simp add: step_thread_kept)
  with assms(3,4) show ?thesis by simp
next
  case True
  then obtain la where "a = Capture t la" ..
  with assms show ?thesis
    by (cases la) (auto simp: loop_iff effect_defs pacing_def split: option.splits if_splits)
qed

lemma read_failure_backs_off:
  assumes "step (Capture t (Read None)) s = Some s1" and "video_capture s = Some h"
    and "run bs s1 = Some s2"
  shows "threads s1 ! t = L_backoff (now s + 2) \<and>
         ((\<forall>w. threads s2 ! t \<noteq> L_backoff w \<and> threads s2 ! t \<noteq> L_pace w) \<longrightarrow>
            now s + 2 + 1 / 30 \<le> now s2)"
proof -
  from assms(1,2) have 1: "threads s1 ! t = L_backoff (now s + 2)" "t < length (threads s1)"
    "now s1 = now s"
    by (auto simp: loop_iff effect_defs backoff_def)
  then have "past_backoff (now s + 2) (now s1) (threads s1 ! t)"
    by simp
  with assms(3) 1(2) have "past_backoff (now s + 2) (now s2) (threads s2 ! t)"
    by (rule past_backoff_run)
  then have "(\<forall>w. threads s2 ! t \<noteq> L_backoff w \<and> threads s2 ! t \<noteq> L_pace w) \<longrightarrow>
      now s + 2 + 1 / 30 \<le> now s2"
    by (cases "threads s2 ! t") (auto simp: pacing_def)
  with 1(1) show ?thesis by blast
qed

text \<open>
  Claim C7: nothing but the flag ends the loop. A thread ends only by the test of line 29
  with the flag set, so in a schedule that never sets the flag every thread stays alive,
  whatever its reads and encodes return. A failed read puts the thread into the backoff of
  2 time units, and it is past that sleep and the pacing sleep only 2 + 1/30 later; a
  failed encode leaves the slot alone and goes to the pacing sleep; and a thread comes
  back to line 29 only out of a pacing sleep, which is always 1/30 long.
\<close>

theorem loop_failures_not_fatal:
  "(\<forall>a s s' t. step a s = Some s' \<and> t < length (threads s) \<and> threads s ! t \<noteq> L_stopped \<and>
       threads s' ! t = L_stopped \<longrightarrow> a = Capture t While \<and> shutdown_flag s) \<and>
   (\<forall>as s s' t. run as s = Some s' \<and> \<not> shutdown_flag s \<and> (\<forall>i. Handle i Set_flag \<notin> set as) \<and>
       t < length (threads s) \<and> threads s ! t \<noteq> L_stopped \<longrightarrow> threads s' ! t \<noteq> L_stopped) \<and>
   (\<forall>t s s1 h bs s2. step (Capture t (Read None)) s = Some s1 \<and> video_capture s = Some h \<and>
       run bs s1 = Some s2 \<longrightarrow>
       threads s1 ! t = L_backoff (now s + 2) \<and>
       ((\<forall>w. threads s2 ! t \<noteq> L_backoff w \<and> threads s2 ! t \<noteq> L_pace w) \<longrightarrow>
          now s + 2 + 1 / 30 \<le> now s2)) \<and>
   (\<forall>t s s'. step (Capture t (Encode None)) s = Some s' \<longrightarrow>
       threads s' ! t = L_pace (now s + 1 / 30) \<and> output_frame s' = output_frame s) \<and>
   (\<forall>a s s' t. step a s = Some s' \<and> t < length (threads s) \<and> threads s ! t \<noteq> L_while \<and>
       threads s' ! t = L_while \<longrightarrow>
       a = Capture t Wake \<and> (\<exists>w. threads s ! t = L_pace w \<and> w \<le> now s)) \<and>
   (\<forall>a s s' t w. step a s = Some s' \<and> t < length (threads s) \<and> threads s ! t \<noteq> L_pace w \<and>
       threads s' ! t = L_pace w \<longrightarrow> w = now s + 1 / 30)"
proof (intro conjI allI impI)
  fix a s s' t
  assume "step a s = Some s' \<and> t < length (threads s) \<and> threads s ! t \<noteq> L_stopped \<and>
       threads s' ! t = L_stopped"
  then show "a = Capture t While" and "shutdown_flag s"
    using loop_ends_by_flag by blast+
next
  fix as s s' t
  assume "run as s = Some s' \<and> \<not> shutdown_flag s \<and> (\<forall>i. Handle i Set_flag \<notin> set as) \<and>
       t < length (threads s) \<and> threads s ! t \<noteq> L_stopped"
  then show "threads s' ! t \<noteq> L_stopped"
    using loop_runs_without_flag by blast
next
  fix t s s1 h bs s2
  assume *: "step (Capture t (Read None)) s = Some s1 \<and> video_capture s = Some h \<and>
       run bs s1 = Some s2"
  then show "threads s1 ! t = L_backoff (now s + 2)"
    using read_failure_backs_off by blast
  fix w
  assume "\<forall>w. threads s2 ! t \<noteq> L_backoff w \<and> threads s2 ! t \<noteq> L_pace w"
  with * show "now s + 2 + 1 / 30 \<le> now s2"
    using read_failure_backs_off by blast
next
  fix t s s'
  assume "step (Capture t (Encode None)) s = Some s'"
  then show "threads s' ! t = L_pace (now s + 1 / 30)" and "output_frame s' = output_frame s"
    by (auto simp: loop_iff effect_defs pacing_def)
next
  fix a s s' t
  assume "step a s = Some s' \<and> t < length (threads s) \<and> threads s ! t \<noteq> L_while \<and>
       threads s' ! t = L_while"
  then show "a = Capture t Wake" and "\<exists>w. threads s ! t = L_pace w \<and> w \<le> now s"
    using loop_back_through_pacing by blast+
next
  fix a s s' t w
  assume "step a s = Some s' \<and> t < length (threads s) \<and> threads s ! t \<noteq> L_pace w \<and>
       threads s' ! t = L_pace w"
  then show "w = now s + 1 / 30"
    using pacing_sleep_full by blast
qed

theorem loop_failures_not_fatal_witness:
  "\<exists>s s'. run failing_read init = Some s \<and> threads s ! 0 = L_backoff 2 \<and>
     run bad_frames s = Some s' \<and> threads s' ! 0 \<noteq> L_stopped \<and>
     threads s' ! 0 = L_pace (2 + 1 / 30 + 1 / 30) \<and> output_frame s' = None"
proof -
  define s where "s = the (run failing_read init)"
  define s' where "s' = the (run bad_frames s)"
  have a: "run failing_read init = Some s"
    unfolding s_def by (simp add: failing_read_def run_defs)
  have p: "threads s ! 0 = L_backoff 2" "\<not> shutdown_flag s" "0 < length (threads s)"
    "threads s ! 0 \<noteq> L_stopped"
    unfolding s_def by (simp_all add: failing_read_def run_defs)
  have b: "run bad_frames s = Some s'"
    unfolding s'_def s_def by (simp add: bad_frames_def failing_read_def run_defs)
  have c: "threads s' ! 0 = L_pace (2 + 1 / 30 + 1 / 30)" "output_frame s' = None"
    unfolding s'_def s_def by (simp_all add: bad_frames_def failing_read_def run_defs)
  have n: "\<forall>i. Handle i Set_flag \<notin> set bad_frames"
    by (simp add: bad_frames_def)
  from loop_failures_not_fatal [THEN conjunct2, THEN conjunct1, rule_format, of bad_frames s s' 0]
    b p n have "threads s' ! 0 \<noteq> L_stopped"
    by blast
  with a p b c show ?thesis
    by blast
qed

section \<open>Cancellation during the backoff\<close>

lemma run_threads_grow:
  "run bs s = Some s' \<Longrightarrow> t < length (threads s) \<Longrightarrow> t < length (threads s')"
proof (induction bs arbitrary: s)
  case Nil
  then show ?case by simp
next
  case (Cons a bs)
  then show ?case
    using step_threads_grow by (fastforce split: option.splits)
qed

lemma loop_exit_has_check:
  "run bs s = Some s' \<Longrightarrow> t < length (threads s) \<Longrightarrow> threads s ! t \<noteq> L_stopped \<Longrightarrow>
     threads s' ! t = L_stopped \<Longrightarrow>
     \<exists>pre post s1. bs = pre @ Capture t While # post \<and> run pre s = Some s1 \<and>
        threads s1 ! t = L_while \<and> shutdown_flag s1"
proof (induction bs arbitrary: s)
  case Nil
  then show ?case by simp
next
  case (Cons a bs)
  from Cons.prems(1) obtain s1 where s1: "step a s = Some s1" "run bs s1 = Some s'"
    by (auto split: option.splits)
  show ?case
  proof (cases "threads s1 ! t = L_stopped")
    case True
    with s1(1) Cons.prems(2,3) have a: "a = Capture t While" "shutdown_flag s"
      using loop_ends_by_flag by blast+
    with s1(1) have "threads s ! t = L_while"
      by (simp add: loop_iff)
    with a have "a # bs = [] @ Capture t While # bs \<and> run [] s = Some s \<and>
        threads s ! t = L_while \<and> shutdown_flag s"
      by simp
    then show ?thesis by blast
  next
    case False
    from s1(1) Cons.prems(2) have "t < length (threads s1)"
      using step_threads_grow by fastforce
    with s1(2) False Cons.prems(4) obtain pre post s2 where
      p: "bs = pre @ Capture t While # post" "run pre s1 = Some s2"
        "threads s2 ! t = L_while" "shutdown_flag s2"
      using Cons.IH by blast
    with s1(1) have "a # bs = (a # pre) @ Capture t While # post \<and>
        run (a # pre) s = Some s2 \<and> threads s2 ! t = L_while \<and> shutdown_flag s2"
      by simp
    then show ?thesis by blast
  qed
qed

text \<open>
  Claim C3, as stated, fails: \<open>time.sleep(2)\<close> at line 39 is not interrupted by the
  flag. In the schedule below the flag is set at time 1/2, during the backoff that ends at
  time 2; one whole time unit later the flag is still set, the thread is still in its
  backoff, and neither waking up nor the test of line 29 is a step it can take.
\<close>

theorem cancellation_waits_for_backoff:
  "map_option
     (\<lambda>s. (shutdown_flag s, now s, threads s ! 0, step (Capture 0 Wake) s,
            step (Capture 0 While) s))
     (run cancelled_in_backoff init) =
   Some (True, 3 / 2, L_backoff 2, None, None)"
  by (simp add: cancelled_in_backoff_def failing_read_def run_defs)

text \<open>
  Claim C3, amended: a thread whose backoff ends at \<open>w\<close> is back at line 29, or has
  ended, only at time \<open>w + 1/30\<close> or later (the backoff and the pacing sleep of line
  40 are both slept in full, whatever happens to the flag meanwhile). When it has ended,
  it ended by a test of line 29 that it made at \<open>w + 1/30\<close> or later and that found the
  flag set at that moment; and a thread standing at line 29 ends if the flag is set then
  and goes on to read if it is not.
\<close>

theorem cancelled_loop_exits_after_backoff:
  assumes "run bs s = Some s'" and "t < length (threads s)" and "threads s ! t = L_backoff w"
  shows "(threads s' ! t = L_while \<or> threads s' ! t = L_stopped \<longrightarrow> w + 1 / 30 \<le> now s') \<and>
         (threads s' ! t = L_stopped \<longrightarrow>
            (\<exists>pre post s1. bs = pre @ Capture t While # post \<and> run pre s = Some s1 \<and>
               threads s1 ! t = L_while \<and> shutdown_flag s1 \<and> w + 1 / 30 \<le> now s1)) \<and>
         (threads s' ! t = L_while \<longrightarrow>
            (\<exists>s''. step (Capture t While) s' = Some s'' \<and>
               threads s'' ! t = (if shutdown_flag s' then L_stopped else L_read)))"
proof -
  from assms(3) have p0: "past_backoff w (now s) (threads s ! t)"
    by simp
  with assms(1,2) have p: "past_backoff w (now s') (threads s' ! t)"
    by (rule past_backoff_run)
  have 1: "w + 1 / 30 \<le> now s'" if "threads s' ! t = L_while \<or> threads s' ! t = L_stopped"
    using p that by (auto simp: pacing_def)
  have 2: "\<exists>pre post s1. bs = pre @ Capture t While # post \<and> run pre s = Some s1 \<and>
      threads s1 ! t = L_while \<and> shutdown_flag s1 \<and> w + 1 / 30 \<le> now s1"
    if "threads s' ! t = L_stopped"
  proof -
    from assms(3) have "threads s ! t \<noteq> L_stopped"
      by simp
    with assms(1,2) that obtain pre post s1 where
      c: "bs = pre @ Capture t While # post" "run pre s = Some s1" "threads s1 ! t = L_while"
        "shutdown_flag s1"
      using loop_exit_has_check by blast
    from c(2) assms(2) p0 have "past_backoff w (now s1) (threads s1 ! t)"
      by (rule past_backoff_run)
    with c(3) have "w + 1 / 30 \<le> now s1"
      by (simp add: pacing_def)
    with c show ?thesis by blast
  qed
  from assms(1,2) have "t < length (threads s')"
    by (rule run_threads_grow)
  then have 3: "\<exists>s''. step (Capture t While) s' = Some s'' \<and>
      threads s'' ! t = (if shutdown_flag s' then L_stopped else L_read)"
    if "threads s' ! t = L_while"
    using that by (simp add: loop_iff effect_defs)
  from 1 2 3 show ?thesis
    by blast
qed

theorem cancelled_loop_exits_after_backoff_witness:
  "\<exists>s s'. run cancelled_in_backoff init = Some s \<and> threads s ! 0 = L_backoff 2 \<and>
     run leaves_after_backoff s = Some s' \<and> threads s' ! 0 = L_stopped \<and>
     now s' = 2 + 1 / 30 \<and> (2::rat) + 1 / 30 \<le> now s' \<and>
     (\<exists>pre post s1. leaves_after_backoff = pre @ Capture 0 While # post \<and>
        run pre s = Some s1 \<and> shutdown_flag s1 \<and> (2::rat) + 1 / 30 \<le> now s1)"
proof -
  define s where "s = the (run cancelled_in_backoff init)"
  define s' where "s' = the (run leaves_after_backoff s)"
  have a: "run cancelled_in_backoff init = Some s"
    unfolding s_def by (simp add: cancelled_in_backoff_def failing_read_def run_defs)
  have k: "0 < length (threads s)"
    unfolding s_def by (simp add: cancelled_in_backoff_def failing_read_def run_defs)
  have p: "threads s ! 0 = L_backoff 2"
    unfolding s_def by (simp add: cancelled_in_backoff_def failing_read_def run_defs)
  have b: "run leaves_after_backoff s = Some s'"
    unfolding s'_def s_def
    by (simp add: leaves_after_backoff_def cancelled_in_backoff_def failing_read_def run_defs)
  have c: "threads s' ! 0 = L_stopped"
    unfolding s'_def s_def
    by (simp add: leaves_after_backoff_def cancelled_in_backoff_def failing_read_def run_defs)
  have n: "now s' = 2 + 1 / 30"
    unfolding s'_def s_def
    by (simp add: leaves_after_backoff_def cancelled_in_backoff_def failing_read_def run_defs)
  from cancelled_loop_exits_after_backoff [OF b k p] c
  have "(2::rat) + 1 / 30 \<le> now s'"
    and "\<exists>pre post s1. leaves_after_backoff = pre @ Capture 0 While # post \<and>
        run pre s = Some s1 \<and> shutdown_flag s1 \<and> (2::rat) + 1 / 30 \<le> now s1"
    by blast+
  with a p b c n show ?thesis
    by blast
qed

section \<open>What a viewer receives\<close>

lemma outbox_step:
  assumes "step a s = Some s'"
  shows "outbox s' k =
     outbox s k @
     map chunk (if a = View k GTest then (case output_frame s of None \<Rightarrow> [] | Some f \<Rightarrow> [f])
                else [])"
proof (cases a)
  case (Advance d)
  with assms show ?thesis by (auto simp: outbox_def split: if_splits)
next
  case (Capture t la)
  with assms show ?thesis by (cases la) (auto simp: loop_iff effect_defs outbox_def)
next
  case (View k' va)
  show ?thesis
  proof (cases "k' = k")
    case True
    with View assms show ?thesis
      by (cases va) (auto simp: gen_iff effect_defs outbox_def split: option.splits)
  next
    case False
    with View assms show ?thesis
      by (cases va) (auto simp: gen_iff effect_defs outbox_def split: option.splits)
  qed
next
  case Connect
  with assms show ?thesis by (auto simp: effect_defs outbox_def nth_append)
next
  case (Request u)
  with assms show ?thesis by (auto simp: effect_defs outbox_def)
next
  case (Handle i ha)
  with assms show ?thesis
    by (cases ha) (auto simp: start_stream_iff effect_defs outbox_def split: option.splits)
qed

lemma outbox_run:
  "run as s = Some s' \<Longrightarrow> outbox s' k = outbox s k @ map chunk (copied k as s)"
proof (induction as arbitrary: s)
  case Nil
  then show ?case by simp
next
  case (Cons a as)
  from Cons.prems obtain s1 where s1: "step a s = Some s1" "run as s1 = Some s'"
    by (auto split: option.splits)
  from s1(2) have "outbox s' k = outbox s1 k @ map chunk (copied k as s1)"
    by (rule Cons.IH)
  with outbox_step [OF s1(1), of k] s1(1) show ?case
    by simp
qed

lemma polling_step:
  assumes "step a s = Some s'" and "output_frame s' = None"
    and "list_all polling (viewers s)"
  shows "list_all polling (viewers s')"
proof (cases a)
  case (Advance d)
  with assms show ?thesis by (auto split: if_splits)
next
  case (Capture t la)
  with assms show ?thesis by (cases la) (auto simp: loop_iff effect_defs)
next
  case (View k va)
  with assms have "k < length (viewers s)" by (simp add: generate_frames_def split: if_splits)
  with assms(3) have "polling (viewers s ! k)" by (simp add: list_all_nth)
  with View assms show ?thesis
    by (cases va)
      (auto simp: gen_iff effect_defs polling_def intro!: list_all_update split: option.splits)
next
  case Connect
  with assms show ?thesis by (auto simp: effect_defs polling_def)
next
  case (Request u)
  with assms show ?thesis by (auto simp: effect_defs polling_def)
next
  case (Handle i ha)
  with assms show ?thesis
    by (cases ha) (auto simp: start_stream_iff effect_defs split: option.splits)
qed

lemma output_frame_step_empty:
  "step a s = Some s' \<Longrightarrow> output_frame s' = None \<Longrightarrow> output_frame s = None"
  using output_frame_step_filled by blast

lemma polling_run:
  "run as init = Some s \<Longrightarrow> output_frame s = None \<Longrightarrow> list_all polling (viewers s)"
proof (induction as arbitrary: s rule: rev_induct)
  case Nil
  then show ?case by (auto simp: init_def)
next
  case (snoc a as)
  from snoc.prems(1) obtain s0 where s0: "run as init = Some s0" "step a s0 = Some s"
    by (auto simp: run_snoc split: option.splits)
  from s0(2) snoc.prems(2) have "output_frame s0 = None"
    by (rule output_frame_step_empty)
  with s0(1) have "list_all polling (viewers s0)"
    by (rule snoc.IH)
  with s0(2) snoc.prems(2) show ?case
    by (rule polling_step)
qed

lemma pending_case: "pending pc = (case pc of G_yield f \<Rightarrow> [chunk f] | _ \<Rightarrow> [])"
  by (cases pc) simp_all

text \<open>
  Claim C8: the parts a viewer has been sent, with the one it is about to yield, are
  exactly the frames it copied out of the slot at lines 50 to 52, in that order and one
  part for each copy, each framed as the boundary line, the \<open>Content-Type: image/jpeg\<close>
  line, an empty line, the copied bytes and a closing line break. Every such frame is a
  buffer that \<open>cv2.imencode\<close> returned, and while the slot is empty a viewer has
  been sent nothing.
\<close>

theorem chunks_well_formed:
  assumes "run as init = Some s" and "k < length (viewers s)"
  shows "sent (viewers s ! k) @
           (case gen (viewers s ! k) of
              G_yield f \<Rightarrow>
                [''--frame'' @ [CHR 0x0D, CHR 0x0A] @ ''Content-Type: image/jpeg'' @
                 [CHR 0x0D, CHR 0x0A] @ [CHR 0x0D, CHR 0x0A] @ f @ [CHR 0x0D, CHR 0x0A]]
            | _ \<Rightarrow> []) =
         map (\<lambda>f. ''--frame'' @ [CHR 0x0D, CHR 0x0A] @ ''Content-Type: image/jpeg'' @
                  [CHR 0x0D, CHR 0x0A] @ [CHR 0x0D, CHR 0x0A] @ f @ [CHR 0x0D, CHR 0x0A])
           (copied k as init) \<and>
         (\<forall>c\<in>set (sent (viewers s ! k)). \<exists>f\<in>set (encoded as).
            c = ''--frame'' @ [CHR 0x0D, CHR 0x0A] @ ''Content-Type: image/jpeg'' @
                [CHR 0x0D, CHR 0x0A] @ [CHR 0x0D, CHR 0x0A] @ f @ [CHR 0x0D, CHR 0x0A]) \<and>
         (output_frame s = None \<longrightarrow> sent (viewers s ! k) = [])"
proof -
  have "outbox s k = outbox init k @ map chunk (copied k as init)"
    using assms(1) by (rule outbox_run)
  with assms(2) have "sent (viewers s ! k) @
      (case gen (viewers s ! k) of G_yield f \<Rightarrow> [chunk f] | _ \<Rightarrow> []) =
      map chunk (copied k as init)"
    by (simp add: outbox_def init_def pending_case)
  moreover from assms(1) have "frames_from (encoded as) s"
    by (rule frames_from_run)
  with assms(2) have "set (sent (viewers s ! k)) \<subseteq> chunk ` set (encoded as)"
    by (simp add: frames_from_def viewer_from_def list_all_length)
  then have "\<forall>c\<in>set (sent (viewers s ! k)). \<exists>f\<in>set (encoded as). c = chunk f"
    by blast
  moreover have "output_frame s = None \<longrightarrow> sent (viewers s ! k) = []"
    using polling_run [OF assms(1)] assms(2) by (auto simp: list_all_length polling_def)
  ultimately show ?thesis
    unfolding chunk_def crlf_def by blast
qed

theorem chunks_well_formed_witness:
  "\<exists>s s'. run early_viewer init = Some s \<and> output_frame s = None \<and> sent (viewers s ! 0) = [] \<and>
     run watching init = Some s' \<and> copied 0 watching init = [''jpg''] \<and>
     gen (viewers s' ! 0) = G_pace (1 / 30) \<and>
     sent (viewers s' ! 0) =
       [''--frame'' @ [CHR 0x0D, CHR 0x0A] @ ''Content-Type: image/jpeg'' @
        [CHR 0x0D, CHR 0x0A] @ [CHR 0x0D, CHR 0x0A] @ ''jpg'' @ [CHR 0x0D, CHR 0x0A]]"
proof -
  define s where "s = the (run early_viewer init)"
  define s' where "s' = the (run watching init)"
  have a: "run early_viewer init = Some s"
    unfolding s_def by (simp add: early_viewer_def run_defs)
  have k: "0 < length (viewers s)"
    unfolding s_def by (simp add: early_viewer_def run_defs)
  have e: "output_frame s = None"
    unfolding s_def by (simp add: early_viewer_def run_defs)
  have b: "run watching init = Some s'"
    unfolding s'_def by (simp add: watching_def early_viewer_def first_stream_def run_defs)
  have k': "0 < length (viewers s')"
    unfolding s'_def by (simp add: watching_def early_viewer_def first_stream_def run_defs)
  have g: "gen (viewers s' ! 0) = G_pace (1 / 30)"
    unfolding s'_def by (simp add: watching_def early_viewer_def first_stream_def run_defs)
  have c: "copied 0 watching init = [''jpg'']"
    by (simp add: watching_def early_viewer_def first_stream_def run_defs)
  from chunks_well_formed [OF a k] e have 1: "sent (viewers s ! 0) = []"
    by blast
  from chunks_well_formed [OF b k'] have "sent (viewers s' ! 0) @
           (case gen (viewers s' ! 0) of
              G_yield f \<Rightarrow>
                [''--frame'' @ [CHR 0x0D, CHR 0x0A] @ ''Content-Type: image/jpeg'' @
                 [CHR 0x0D, CHR 0x0A] @ [CHR 0x0D, CHR 0x0A] @ f @ [CHR 0x0D, CHR 0x0A]]
            | _ \<Rightarrow> []) =
         map (\<lambda>f. ''--frame'' @ [CHR 0x0D, CHR 0x0A] @ ''Content-Type: image/jpeg'' @
                  [CHR 0x0D, CHR 0x0A] @ [CHR 0x0D, CHR 0x0A] @ f @ [CHR 0x0D, CHR 0x0A])
           (copied 0 watching init)"
    by blast
  with g c have 2: "sent (viewers s' ! 0) =
       [''--frame'' @ [CHR 0x0D, CHR 0x0A] @ ''Content-Type: image/jpeg'' @
        [CHR 0x0D, CHR 0x0A] @ [CHR 0x0D, CHR 0x0A] @ ''jpg'' @ [CHR 0x0D, CHR 0x0A]]"
    by simp
  from a e 1 b c g 2 show ?thesis
    by blast
qed

section \<open>The order of the steps of a call\<close>

lemma call_trace_snoc: "call_trace i (as @ [a]) = call_trace i as @ req_of i a"
  by (simp add: call_trace_def)

lemma call_at_step:
  assumes "start_stream j ha s = Some s'" and "call_at (calls s ! j) seg"
  shows "call_at (calls s' ! j) (seg @ [ha])"
proof (cases ha)
  case (Alive b)
  with assms(1) obtain u where h: "calls s ! j = H_alive u"
      "calls s' ! j = (if b then H_set u else H_clear u)"
    by (auto simp: start_stream_iff hgoto_def)
  with assms(2) Alive show ?thesis
    by (cases b) (simp_all add: to_clear_def)
next
  case Set_flag
  with assms(1) obtain u d where h: "calls s ! j = H_set u" "calls s' ! j = H_join u d"
    by (auto simp: start_stream_iff hgoto_def)
  with assms(2) Set_flag show ?thesis by simp
next
  case Joined
  with assms(1) obtain u d where h: "calls s ! j = H_join u d" "calls s' ! j = H_release u"
    by (auto simp: start_stream_iff hgoto_def)
  with assms(2) Joined show ?thesis by simp
next
  case Timeout
  with assms(1) obtain u d where h: "calls s ! j = H_join u d" "calls s' ! j = H_release u"
    by (auto simp: start_stream_iff hgoto_def)
  with assms(2) Timeout show ?thesis by simp
next
  case Release
  with assms(1) obtain u where h: "calls s ! j = H_release u" "calls s' ! j = H_clear u"
    by (auto simp: start_stream_iff hgoto_def release_def split: option.splits)
  with assms(2) Release show ?thesis by (auto simp: to_clear_def)
next
  case Clear_flag
  with assms(1) obtain u where h: "calls s ! j = H_clear u" "calls s' ! j = H_open u"
    by (auto simp: start_stream_iff hgoto_def)
  with assms(2) Clear_flag show ?thesis by simp
next
  case (Open r)
  with assms(1) obtain u where h: "calls s ! j = H_open u"
      "calls s' ! j = (if r = Open_raised then H_raised u else H_isopened u)"
    by (auto simp: start_stream_iff hgoto_def open_capture_def)
  with assms(2) Open show ?thesis
    by (cases r) (auto simp: to_test_def)
next
  case (Is_opened b)
  with assms(1) obtain u where h: "calls s ! j = H_isopened u"
      "calls s' ! j = (if b then H_spawn u else H_returned u error_response)"
    by (auto simp: start_stream_iff hgoto_def)
  with assms(2) Is_opened show ?thesis
    by (cases b) simp_all
next
  case Spawn
  with assms(1) obtain u where h: "calls s ! j = H_spawn u"
      "calls s' ! j = H_returned u (success_response u)"
    by (auto simp: start_stream_iff hgoto_def spawn_def)
  with assms(2) Spawn show ?thesis by auto
qed

lemma handler_step_calls:
  assumes "start_stream j ha s = Some s'"
  shows "j < length (calls s) \<and> length (calls s') = length (calls s) \<and>
         (\<forall>i. i \<noteq> j \<longrightarrow> calls s' ! i = calls s ! i)"
  using assms
  by (cases ha) (auto simp: start_stream_iff effect_defs split: option.splits)

lemma step_other_calls:
  assumes "step a s = Some s'" and "\<forall>j ha. a \<noteq> Handle j ha" and "\<forall>u. a \<noteq> Request u"
  shows "calls s' = calls s"
proof (cases a)
  case (Advance d)
  with assms show ?thesis by (auto split: if_splits)
next
  case (Capture t la)
  with assms show ?thesis by (cases la) (auto simp: loop_iff effect_defs)
next
  case (View k va)
  with assms show ?thesis by (cases va) (auto simp: gen_iff effect_defs)
next
  case Connect
  with assms show ?thesis by (auto simp: effect_defs)
next
  case (Request u)
  with assms show ?thesis by simp
next
  case (Handle i ha)
  with assms show ?thesis by simp
qed

lemma calls_in_order_step:
  assumes "step a s = Some s'" and inv: "calls_in_order s as"
  shows "calls_in_order s' (as @ [a])"
proof (cases a)
  case (Handle j ha)
  with assms(1) have st: "start_stream j ha s = Some s'"
    by simp
  from handler_step_calls [OF st] have len: "j < length (calls s)"
      "length (calls s') = length (calls s)" and same: "\<forall>i. i \<noteq> j \<longrightarrow> calls s' ! i = calls s ! i"
    by blast+
  show ?thesis
    unfolding calls_in_order_def
  proof
    fix i
    show "if i < length (calls s') then call_at (calls s' ! i) (call_trace i (as @ [a]))
          else call_trace i (as @ [a]) = []"
    proof (cases "i = j")
      case True
      from inv len(1) have "call_at (calls s ! j) (call_trace j as)"
        by (simp add: calls_in_order_def)
      with st have "call_at (calls s' ! j) (call_trace j as @ [ha])"
        by (rule call_at_step)
      with True Handle len show ?thesis
        by (simp add: call_trace_snoc)
    next
      case False
      with Handle have "call_trace i (as @ [a]) = call_trace i as"
        by (simp add: call_trace_snoc)
      with False same len(2) inv show ?thesis
        by (simp add: calls_in_order_def)
    qed
  qed
next
  case (Request u)
  with assms(1) have c: "calls s' = calls s @ [H_alive u]"
    by (auto simp: request_def)
  from Request have t: "call_trace i (as @ [a]) = call_trace i as" for i
    by (simp add: call_trace_snoc)
  show ?thesis
    unfolding calls_in_order_def t c
  proof
    fix i
    from inv have "if i < length (calls s) then call_at (calls s ! i) (call_trace i as)
        else call_trace i as = []"
      by (simp add: calls_in_order_def)
    then show "if i < length (calls s @ [H_alive u])
        then call_at ((calls s @ [H_alive u]) ! i) (call_trace i as)
        else call_trace i as = []"
      by (auto simp: nth_append less_Suc_eq)
  qed
next
  case (Advance d)
  with assms(1) have "calls s' = calls s"
    using step_other_calls [of a s s'] by simp
  with Advance inv show ?thesis
    by (simp add: calls_in_order_def call_trace_snoc)
next
  case (Capture t la)
  with assms(1) have "calls s' = calls s"
    using step_other_calls [of a s s'] by simp
  with Capture inv show ?thesis
    by (simp add: calls_in_order_def call_trace_snoc)
next
  case (View k va)
  with assms(1) have "calls s' = calls s"
    using step_other_calls [of a s s'] by simp
  with View inv show ?thesis
    by (simp add: calls_in_order_def call_trace_snoc)
next
  case Connect
  with assms(1) have "calls s' = calls s"
    using step_other_calls [of a s s'] by simp
  with Connect inv show ?thesis
    by (simp add: calls_in_order_def call_trace_snoc)
qed

lemma calls_in_order_run: "run as init = Some s \<Longrightarrow> calls_in_order s as"
proof (induction as arbitrary: s rule: rev_induct)
  case Nil
  then show ?case
    by (auto simp: init_def calls_in_order_def call_trace_def)
next
  case (snoc a as)
  then show ?case
    by (auto simp: run_snoc split: option.splits intro: calls_in_order_step)
qed

section \<open>The capture objects\<close>

lemma replay_snoc: "replay (as @ [a]) = replay_step (replay as) a"
  by (simp add: replay_def)

lemma step_other_captures:
  assumes "step a s = Some s'" and "\<forall>j ha. a \<noteq> Handle j ha"
  shows "captures s' = captures s \<and> video_capture s' = video_capture s"
proof (cases a)
  case (Advance d)
  with assms show ?thesis by (auto split: if_splits)
next
  case (Capture t la)
  with assms show ?thesis by (cases la) (auto simp: loop_iff effect_defs)
next
  case (View k va)
  with assms show ?thesis by (cases va) (auto simp: gen_iff effect_defs)
next
  case Connect
  with assms show ?thesis by (auto simp: effect_defs)
next
  case (Request u)
  with assms show ?thesis by (auto simp: effect_defs)
next
  case (Handle i ha)
  with assms show ?thesis by simp
qed

lemma handles_release:
  assumes "current_is_last s"
  shows "handles (release s) = (handles s)[length (handles s) - 1 :=
           (fst (last (handles s)), Suc (snd (last (handles s))))] \<and>
         current_is_last (release s)"
proof (cases "captures s = []")
  case True
  with assms show ?thesis
    by (simp add: current_is_last_def handles_def release_def)
next
  case False
  with assms have v: "video_capture s = Some (length (captures s) - 1)"
    by (simp add: current_is_last_def)
  from False have l: "captures s ! (length (captures s) - 1) = last (captures s)"
    by (simp add: last_conv_nth)
  from False v l show ?thesis
    by (simp add: current_is_last_def handles_def release_def map_update last_map)
qed

lemma handles_open:
  "handles (open_capture u ok s) = handles s @ [(ok, 0)] \<and> current_is_last (open_capture u ok s)"
  by (simp add: handles_def open_capture_def current_is_last_def)

lemma handles_hgoto: "handles (hgoto i pc s) = handles s"
  by (simp add: handles_def hgoto_def)

lemma current_is_last_hgoto: "current_is_last (hgoto i pc s) = current_is_last s"
  by (simp add: current_is_last_def hgoto_def)

lemma handles_step:
  assumes "step a s = Some s'" and "handles s = cs" and "current_is_last s"
  shows "handles s' = replay_step cs a \<and> current_is_last s'"
proof (cases a)
  case (Handle j ha)
  with assms(1) have st: "start_stream j ha s = Some s'"
    by simp
  show ?thesis
  proof (cases ha)
    case Release
    with st obtain u where "s' = hgoto j (H_clear u) (release s)"
      by (auto simp: start_stream_iff)
    with handles_release [OF assms(3)] assms(2) Handle Release show ?thesis
      by (simp add: handles_hgoto current_is_last_hgoto)
  next
    case (Open r)
    with st obtain u where "s' = (if r = Open_raised then hgoto j (H_raised u) s
        else hgoto j (H_isopened u) (open_capture u (r = Opened) s))"
      by (auto simp: start_stream_iff)
    with handles_open assms(2,3) Handle Open show ?thesis
      by (simp add: handles_hgoto current_is_last_hgoto)
  next
    case (Alive b)
    with st assms(2,3) Handle show ?thesis
      by (auto simp: start_stream_iff handles_def current_is_last_def hgoto_def)
  next
    case Set_flag
    with st assms(2,3) Handle show ?thesis
      by (auto simp: start_stream_iff handles_def current_is_last_def hgoto_def)
  next
    case Joined
    with st assms(2,3) Handle show ?thesis
      by (auto simp: start_stream_iff handles_def current_is_last_def hgoto_def)
  next
    case Timeout
    with st assms(2,3) Handle show ?thesis
      by (auto simp: start_stream_iff handles_def current_is_last_def hgoto_def)
  next
    case Clear_flag
    with st assms(2,3) Handle show ?thesis
      by (auto simp: start_stream_iff handles_def current_is_last_def hgoto_def)
  next
    case (Is_opened b)
    with st assms(2,3) Handle show ?thesis
      by (auto simp: start_stream_iff handles_def current_is_last_def hgoto_def)
  next
    case Spawn
    with st assms(2,3) Handle show ?thesis
      by (auto simp: start_stream_iff handles_def current_is_last_def hgoto_def spawn_def)
  qed
next
  case (Advance d)
  with step_other_captures [OF assms(1)] assms(2,3) show ?thesis
    by (simp add: handles_def current_is_last_def)
next
  case (Capture t la)
  with step_other_captures [OF assms(1)] assms(2,3) show ?thesis
    by (simp add: handles_def current_is_last_def)
next
  case (View k va)
  with step_other_captures [OF assms(1)] assms(2,3) show ?thesis
    by (simp add: handles_def current_is_last_def)
next
  case Connect
  with step_other_captures [OF assms(1)] assms(2,3) show ?thesis
    by (simp add: handles_def current_is_last_def)
next
  case (Request u)
  with step_other_captures [OF assms(1)] assms(2,3) show ?thesis
    by (simp add: handles_def current_is_last_def)
qed

lemma handles_run:
  "run as init = Some s \<Longrightarrow> handles s = replay as \<and> current_is_last s"
proof (induction as arbitrary: s rule: rev_induct)
  case Nil
  then show ?case
    by (auto simp: init_def handles_def replay_def current_is_last_def)
next
  case (snoc a as)
  from snoc.prems obtain s1 where r: "run as init = Some s1" and st: "step a s1 = Some s"
    by (auto simp: run_snoc split: option.splits)
  from snoc.IH [OF r] have "handles s1 = replay as" "current_is_last s1"
    by blast+
  with st show ?case
    using handles_step [of a s1 s "replay as"] by (simp add: replay_snoc)
qed

lemma is_opened_current:
  assumes "run as init = Some s"
  shows "is_opened s = current_open as"
proof -
  from handles_run [OF assms] have h: "handles s = replay as" and c: "current_is_last s"
    by blast+
  show ?thesis
  proof (cases "captures s = []")
    case True
    with h c show ?thesis
      by (simp add: is_opened_def current_open_def current_is_last_def handles_def)
  next
    case False
    with c have v: "video_capture s = Some (length (captures s) - 1)"
      by (simp add: current_is_last_def)
    from False have "last (handles s) =
        (opened (captures s ! (length (captures s) - 1)),
         releases (captures s ! (length (captures s) - 1)))"
      by (simp add: handles_def last_map last_conv_nth)
    moreover from False have "handles s \<noteq> []"
      by (simp add: handles_def)
    ultimately show ?thesis
      using v False h by (auto simp: is_opened_def current_open_def)
  qed
qed

lemma replay_kept:
  "list_all (\<lambda>a. \<not> replaces_capture a) mid \<Longrightarrow> cs \<noteq> [] \<Longrightarrow>
   foldl replay_step cs mid \<noteq> [] \<and> fst (last (foldl replay_step cs mid)) = fst (last cs)"
proof (induction mid arbitrary: cs)
  case Nil
  then show ?case by simp
next
  case (Cons a mid)
  from Cons.prems have "replay_step cs a \<noteq> [] \<and> fst (last (replay_step cs a)) = fst (last cs)"
    by (cases "(cs, a)" rule: replay_step.cases) (auto simp: last_list_update)
  with Cons.IH [of "replay_step cs a"] Cons.prems show ?case
    by simp
qed

lemma replay_untouched:
  "list_all (\<lambda>a. \<not> touches_capture a) mid \<Longrightarrow> foldl replay_step cs mid = cs"
proof (induction mid arbitrary: cs)
  case Nil
  then show ?case by simp
next
  case (Cons a mid)
  from Cons.prems have "replay_step cs a = cs"
    by (cases "(cs, a)" rule: replay_step.cases) auto
  with Cons.IH [of cs] Cons.prems show ?case
    by simp
qed

lemma current_open_own:
  assumes "r \<noteq> Open_raised" and "list_all (\<lambda>a. \<not> touches_capture a) mid"
  shows "current_open (pre @ Handle i (Open r) # mid) = (r = Opened)"
proof -
  let ?cs = "replay_step (replay pre) (Handle i (Open r))"
  from assms(1) have "?cs \<noteq> []" "last ?cs = (r = Opened, 0)"
    by simp_all
  with replay_untouched [OF assms(2), of ?cs] show ?thesis
    by (simp add: current_open_def replay_def)
qed

lemma current_open_failed:
  assumes "list_all (\<lambda>a. \<not> replaces_capture a) mid"
  shows "\<not> current_open (pre @ Handle i (Open Not_opened) # mid)"
proof -
  let ?cs = "replay_step (replay pre) (Handle i (Open Not_opened))"
  have "?cs \<noteq> []" "fst (last ?cs) = False"
    by simp_all
  with replay_kept [OF assms, of ?cs] show ?thesis
    by (auto simp: current_open_def replay_def)
qed

lemma test_reads_current:
  assumes "run (pre @ Handle i (Is_opened b) # post) init = Some s"
  shows "b = current_open pre"
proof -
  from assms obtain s1 s2 where r: "run pre init = Some s1"
      and st: "start_stream i (Is_opened b) s1 = Some s2"
    by (auto simp: run_append split: option.splits)
  from st have "b = is_opened s1"
    by (auto simp: start_stream_iff)
  with is_opened_current [OF r] show ?thesis
    by simp
qed

section \<open>The order of the steps of \<open>start_stream\<close>\<close>

lemma call_at_order:
  assumes "call_at pc seg"
  shows "(Alive True \<in> set seg \<longrightarrow>
            (\<forall>r. Open r \<in> set seg \<longrightarrow>
               comes_before Set_flag (Open r) seg \<and> comes_before Release (Open r) seg)) \<and>
         (\<forall>b. Is_opened b \<in> set seg \<longrightarrow>
            (\<exists>r. r \<noteq> Open_raised \<and> comes_before Clear_flag (Open r) seg \<and>
               comes_before (Open r) (Is_opened b) seg)) \<and>
         (Spawn \<in> set seg \<longrightarrow>
            comes_before (Is_opened True) Spawn seg \<and> Is_opened False \<notin> set seg)"
  using assms
  by (cases pc) (auto simp: to_clear_def to_test_def comes_before_def)

lemma raised_is_last:
  "call_at pc seg \<Longrightarrow> Open Open_raised \<in> set seg \<Longrightarrow> last seg = Open Open_raised"
  by (cases pc) (auto simp: to_clear_def to_test_def)

lemma call_known:
  assumes "calls_in_order s as" and "call_trace i as \<noteq> []"
  shows "i < length (calls s) \<and> call_at (calls s ! i) (call_trace i as)"
proof -
  from assms(1) have "if i < length (calls s) then call_at (calls s ! i) (call_trace i as)
      else call_trace i as = []"
    unfolding calls_in_order_def by blast
  with assms(2) show ?thesis
    by (cases "i < length (calls s)") simp_all
qed

lemma own_open_tested:
  assumes "run (pre @ Handle i (Open r) # mid @ Handle i (Is_opened b) # post) init = Some s"
    and "list_all (\<lambda>a. \<not> touches_capture a) mid"
  shows "b = (r = Opened)"
proof -
  let ?p = "pre @ Handle i (Open r) # mid"
  from assms(1) have v: "run (?p @ Handle i (Is_opened b) # post) init = Some s"
    by simp
  then have b: "b = current_open ?p"
    by (rule test_reads_current)
  from v obtain s1 where r1: "run (?p @ [Handle i (Is_opened b)]) init = Some s1"
    using run_append [of "?p @ [Handle i (Is_opened b)]" post init]
    by (auto split: option.splits)
  let ?seg = "call_trace i (?p @ [Handle i (Is_opened b)])"
  have l: "last ?seg = Is_opened b" and m: "Open r \<in> set ?seg"
    by (simp_all add: call_trace_def)
  then have "?seg \<noteq> []"
    by auto
  with calls_in_order_run [OF r1] have "call_at (calls s1 ! i) ?seg"
    using call_known by blast
  with l m have "r \<noteq> Open_raised"
    using raised_is_last [of "calls s1 ! i" ?seg] by auto
  with assms(2) b show ?thesis
    using current_open_own [of r mid pre i] by simp
qed

text \<open>
  Claim C6, as stated, fails when two calls run in parallel, as the server lets them: line
  80 asks \<open>isOpened()\<close> of whatever capture object \<open>app_state\<close> holds by then. Below,
  the open of call 0 fails, call 1 opens its source successfully before call 0 reaches line
  80, and call 0 goes on past the test, starts a capture thread and answers with success.
\<close>

theorem overlapping_call_spawns_after_failed_open:
  "map_option (\<lambda>s. (calls s ! 0, threads s, handles s)) (run overlapping_calls init) =
     Some (H_returned (Uri ''bad://nowhere'') (success_response (Uri ''bad://nowhere'')),
           [L_while], [(False, 0), (True, 0)]) \<and>
   call_trace 0 overlapping_calls =
     [Alive False, Clear_flag, Open Not_opened, Is_opened True, Spawn]"
  by (simp add: overlapping_calls_def run_defs call_trace_def handles_def)

text \<open>
  Claim C6, amended: within every call of \<open>start_stream\<close> the steps are taken in the
  order of the program. A call that found the old thread alive sets the flag before it
  opens the new source; a call that tests \<open>isOpened()\<close> has cleared the flag and then
  opened a source without an exception before; a call that starts a thread has had the
  answer \<open>True\<close> from that test before, and never the answer \<open>False\<close>. The test of
  line 80 answers for the capture object that is current when the line is reached; this
  is the object the call opened itself, as it was opened, when no open of another call
  has returned and no call has released the current object in between, and then the
  answer is whether the call's own open succeeded.
\<close>

theorem start_stream_steps_in_order:
  assumes "run as init = Some s"
  shows "(\<forall>i. (Alive True \<in> set (call_trace i as) \<longrightarrow>
                (\<forall>r. Open r \<in> set (call_trace i as) \<longrightarrow>
                   comes_before Set_flag (Open r) (call_trace i as))) \<and>
              (\<forall>b. Is_opened b \<in> set (call_trace i as) \<longrightarrow>
                (\<exists>r. r \<noteq> Open_raised \<and> comes_before Clear_flag (Open r) (call_trace i as) \<and>
                   comes_before (Open r) (Is_opened b) (call_trace i as))) \<and>
              (Spawn \<in> set (call_trace i as) \<longrightarrow>
                comes_before (Is_opened True) Spawn (call_trace i as) \<and>
                Is_opened False \<notin> set (call_trace i as))) \<and>
         (\<forall>pre i b post. as = pre @ Handle i (Is_opened b) # post \<longrightarrow> b = current_open pre) \<and>
         (\<forall>pre i r mid b post.
            as = pre @ Handle i (Open r) # mid @ Handle i (Is_opened b) # post \<and>
            list_all (\<lambda>a. \<not> touches_capture a) mid \<longrightarrow> b = (r = Opened))"
proof (intro conjI allI impI)
  fix i
  assume "Alive True \<in> set (call_trace i as)"
  then have "call_trace i as \<noteq> []" by auto
  with calls_in_order_run [OF assms] have c: "call_at (calls s ! i) (call_trace i as)"
    using call_known by blast
  fix r
  assume "Open r \<in> set (call_trace i as)"
  with c \<open>Alive True \<in> set (call_trace i as)\<close>
  show "comes_before Set_flag (Open r) (call_trace i as)"
    using call_at_order [of "calls s ! i" "call_trace i as"] by blast
next
  fix i b
  assume a: "Is_opened b \<in> set (call_trace i as)"
  then have "call_trace i as \<noteq> []" by auto
  with calls_in_order_run [OF assms] have c: "call_at (calls s ! i) (call_trace i as)"
    using call_known by blast
  with a show "\<exists>r. r \<noteq> Open_raised \<and> comes_before Clear_flag (Open r) (call_trace i as) \<and>
      comes_before (Open r) (Is_opened b) (call_trace i as)"
    using call_at_order [of "calls s ! i" "call_trace i as"] by blast
next
  fix i
  assume a: "Spawn \<in> set (call_trace i as)"
  then have "call_trace i as \<noteq> []" by auto
  with calls_in_order_run [OF assms] have c: "call_at (calls s ! i) (call_trace i as)"
    using call_known by blast
  with a show "comes_before (Is_opened True) Spawn (call_trace i as)"
    using call_at_order [of "calls s ! i" "call_trace i as"] by blast
  from c a show "Is_opened False \<notin> set (call_trace i as)"
    using call_at_order [of "calls s ! i" "call_trace i as"] by blast
next
  fix pre i b post
  assume "as = pre @ Handle i (Is_opened b) # post"
  with assms show "b = current_open pre"
    using test_reads_current [of pre i b post s] by simp
next
  fix pre i r mid b post
  assume "as = pre @ Handle i (Open r) # mid @ Handle i (Is_opened b) # post \<and>
      list_all (\<lambda>a. \<not> touches_capture a) mid"
  with assms show "b = (r = Opened)"
    using own_open_tested [of pre i r mid b post s] by simp
qed

theorem start_stream_steps_in_order_witness:
  "run (first_stream @ failed_switch) init \<noteq> None \<and>
   call_trace 0 (first_stream @ failed_switch) =
     [Alive False, Clear_flag, Open Opened, Is_opened True, Spawn] \<and>
   call_trace 1 (first_stream @ failed_switch) =
     [Alive True, Set_flag, Joined, Release, Clear_flag, Open Not_opened, Is_opened False] \<and>
   comes_before Set_flag (Open Not_opened) (call_trace 1 (first_stream @ failed_switch)) \<and>
   (\<exists>r. r \<noteq> Open_raised \<and>
      comes_before Clear_flag (Open r) (call_trace 1 (first_stream @ failed_switch)) \<and>
      comes_before (Open r) (Is_opened False) (call_trace 1 (first_stream @ failed_switch))) \<and>
   comes_before (Is_opened True) Spawn (call_trace 0 (first_stream @ failed_switch)) \<and>
   Is_opened False \<notin> set (call_trace 0 (first_stream @ failed_switch)) \<and>
   current_open (first_stream @ butlast failed_switch) = False \<and>
   first_stream @ failed_switch =
     (first_stream @ take 9 failed_switch) @ Handle 1 (Open Not_opened) # [] @
     Handle 1 (Is_opened False) # [] \<and>
   list_all (\<lambda>a. \<not> touches_capture a) [] \<and>
   False = (Not_opened = Opened)"
proof -
  define s where "s = the (run (first_stream @ failed_switch) init)"
  have r: "run (first_stream @ failed_switch) init = Some s"
    unfolding s_def by (simp add: first_stream_def failed_switch_def run_defs)
  have t0: "call_trace 0 (first_stream @ failed_switch) =
      [Alive False, Clear_flag, Open Opened, Is_opened True, Spawn]"
    by (simp add: first_stream_def failed_switch_def call_trace_def)
  have t1: "call_trace 1 (first_stream @ failed_switch) =
      [Alive True, Set_flag, Joined, Release, Clear_flag, Open Not_opened, Is_opened False]"
    by (simp add: first_stream_def failed_switch_def call_trace_def)
  have d: "first_stream @ failed_switch =
      (first_stream @ butlast failed_switch) @ Handle 1 (Is_opened False) # []"
    by (simp add: first_stream_def failed_switch_def)
  have e: "first_stream @ failed_switch =
      (first_stream @ take 9 failed_switch) @ Handle 1 (Open Not_opened) # [] @
      Handle 1 (Is_opened False) # []"
    by (simp add: first_stream_def failed_switch_def)
  have n: "list_all (\<lambda>a. \<not> touches_capture a) []"
    by simp
  have m: "Alive True \<in> set (call_trace 1 (first_stream @ failed_switch))"
      "Open Not_opened \<in> set (call_trace 1 (first_stream @ failed_switch))"
      "Is_opened False \<in> set (call_trace 1 (first_stream @ failed_switch))"
      "Spawn \<in> set (call_trace 0 (first_stream @ failed_switch))"
    unfolding t0 t1 by simp_all
  note order = start_stream_steps_in_order [OF r]
  from order m
  have "comes_before Set_flag (Open Not_opened) (call_trace 1 (first_stream @ failed_switch))"
    by blast
  moreover from order m have "\<exists>r. r \<noteq> Open_raised \<and>
      comes_before Clear_flag (Open r) (call_trace 1 (first_stream @ failed_switch)) \<and>
      comes_before (Open r) (Is_opened False) (call_trace 1 (first_stream @ failed_switch))"
    by blast
  moreover from order m
  have "comes_before (Is_opened True) Spawn (call_trace 0 (first_stream @ failed_switch)) \<and>
      Is_opened False \<notin> set (call_trace 0 (first_stream @ failed_switch))"
    by blast
  moreover from order d have "current_open (first_stream @ butlast failed_switch) = False"
    by blast
  moreover from order e n have "False = (Not_opened = Opened)"
    by blast
  ultimately show ?thesis
    using r t0 t1 e n by blast
qed

section \<open>A source that cannot be opened\<close>

lemma handler_step_keeps:
  assumes "start_stream i ha s1 = Some s2"
  shows "output_frame s2 = output_frame s1 \<and>
         (ha \<noteq> Spawn \<longrightarrow> threads s2 = threads s1 \<and> capture_thread s2 = capture_thread s1) \<and>
         (ha = Set_flag \<longrightarrow> shutdown_flag s2)"
  using assms
  by (cases ha) (auto simp: start_stream_iff effect_defs split: option.splits)

lemma call_at_failed:
  assumes "call_at pc seg"
  shows "(Is_opened False \<in> set seg \<longrightarrow>
            (\<exists>u. pc = H_returned u error_response) \<and> Spawn \<notin> set seg) \<and>
         (Open Open_raised \<in> set seg \<longrightarrow> (\<exists>u. pc = H_raised u) \<and> Spawn \<notin> set seg)"
  using assms
  by (cases pc) (auto simp: to_clear_def to_test_def)

lemma failed_open_is_current:
  assumes "run (pre @ Handle i (Open Not_opened) # post) init = Some s"
    and "list_all (\<lambda>a. \<not> replaces_capture a) post"
  shows "\<not> is_opened s \<and> captures s \<noteq> [] \<and>
         video_capture s = Some (length (captures s) - 1) \<and> \<not> opened (last (captures s))"
proof -
  let ?as = "pre @ Handle i (Open Not_opened) # post"
  from assms(2) have c: "\<not> current_open ?as"
    by (rule current_open_failed)
  with is_opened_current [OF assms(1)] have o: "\<not> is_opened s"
    by simp
  from handles_run [OF assms(1)] have h: "handles s = replay ?as" and l: "current_is_last s"
    by blast+
  from assms(2) have k: "replay ?as \<noteq> [] \<and> fst (last (replay ?as)) = False"
    using replay_kept [of post "replay_step (replay pre) (Handle i (Open Not_opened))"]
    by (simp add: replay_def)
  with h have ne: "captures s \<noteq> []"
    by (auto simp: handles_def)
  with l have v: "video_capture s = Some (length (captures s) - 1)"
    by (simp add: current_is_last_def)
  from ne have "fst (last (handles s)) = opened (last (captures s))"
    by (simp add: handles_def last_map)
  with k h have "\<not> opened (last (captures s))"
    by simp
  with o ne v show ?thesis
    by blast
qed

lemma own_failed_open_tested:
  assumes "run (pre @ Handle i (Open Not_opened) # mid @ Handle i (Is_opened b) # post) init =
      Some s"
    and "list_all (\<lambda>a. \<not> replaces_capture a) mid"
  shows "\<not> b"
proof -
  let ?p = "pre @ Handle i (Open Not_opened) # mid"
  from assms(1) have "run (?p @ Handle i (Is_opened b) # post) init = Some s"
    by simp
  then have "b = current_open ?p"
    by (rule test_reads_current)
  with current_open_failed [OF assms(2), of pre i] show ?thesis
    by simp
qed

text \<open>
  Claim C2, as stated, fails: a failed open does not leave the running stream untouched.
  After the first request, thread 0 runs on capture 0. The request for a source that does
  not open is answered with the 400 error, but by then thread 0 has been stopped, capture 0
  has been released, and the current capture object is the new one that is not open.
\<close>

theorem failed_open_stops_running_stream:
  "map_option (\<lambda>s. (threads s, handles s, video_capture s))
     (run first_stream init) = Some ([L_pace (1 / 30)], [(True, 0)], Some 0) \<and>
   map_option (\<lambda>s. (calls s ! 1, threads s, handles s, video_capture s, is_alive s))
     (run (first_stream @ failed_switch) init) =
   Some (H_returned (Uri ''bad://nowhere'') error_response, [L_stopped],
         [(True, 1), (False, 0)], Some 1, False)"
  by (simp add: first_stream_def failed_switch_def run_defs handles_def)

text \<open>
  Claim C2, amended: a call of \<open>start_stream\<close> that finds the current capture object
  not open at line 80 (its source was not opened, or it has been released) returns the 400
  error and starts no capture thread; this is so whenever the call's own open failed and
  no open of another call has returned in between.
  No step of a call writes the slot, and only the start of a thread changes the threads.
  But the stream that was running is not left untouched. A call that found the thread
  alive has set the flag and called \<open>release()\<close> on the current capture object before
  it opens the new source; after a schedule the capture objects are those that the opens
  that returned have created, in that order, each released as often as \<open>release()\<close> was
  called while it was the current one, and the current one is the latest. So after an
  open that failed, and until the next open returns, the current capture object is the
  one that is not open. A call whose open raises ends there, with no response of its own
  and no thread started.
\<close>

theorem failed_open_returns_error:
  assumes "run as init = Some s"
  shows "handles s = replay as \<and> current_is_last s \<and>
     (\<forall>i. (Is_opened False \<in> set (call_trace i as) \<longrightarrow>
             i < length (calls s) \<and>
             (\<exists>u. calls s ! i =
                H_returned u
                  \<lparr>code = 400, status = ''error'', message = ''Could not open video source.''\<rparr>) \<and>
             Spawn \<notin> set (call_trace i as)) \<and>
          (Open Open_raised \<in> set (call_trace i as) \<longrightarrow>
             i < length (calls s) \<and> (\<exists>u. calls s ! i = H_raised u) \<and>
             Spawn \<notin> set (call_trace i as)) \<and>
          (Alive True \<in> set (call_trace i as) \<longrightarrow>
             (\<forall>r. Open r \<in> set (call_trace i as) \<longrightarrow>
                comes_before Set_flag (Open r) (call_trace i as) \<and>
                comes_before Release (Open r) (call_trace i as)))) \<and>
     (\<forall>pre i mid b post.
        as = pre @ Handle i (Open Not_opened) # mid @ Handle i (Is_opened b) # post \<and>
        list_all (\<lambda>a. \<not> replaces_capture a) mid \<longrightarrow> \<not> b) \<and>
     (\<forall>pre i post.
        as = pre @ Handle i (Open Not_opened) # post \<and>
        list_all (\<lambda>a. \<not> replaces_capture a) post \<longrightarrow>
        \<not> is_opened s \<and> captures s \<noteq> [] \<and>
        video_capture s = Some (length (captures s) - 1) \<and> \<not> opened (last (captures s))) \<and>
     (\<forall>i ha s1 s2. start_stream i ha s1 = Some s2 \<longrightarrow>
        output_frame s2 = output_frame s1 \<and>
        (ha \<noteq> Spawn \<longrightarrow> threads s2 = threads s1 \<and> capture_thread s2 = capture_thread s1) \<and>
        (ha = Set_flag \<longrightarrow> shutdown_flag s2))"
proof -
  note inv = calls_in_order_run [OF assms]
  have known: "i < length (calls s) \<and> call_at (calls s ! i) (call_trace i as)"
    if "x \<in> set (call_trace i as)" for i x
  proof -
    from that have "call_trace i as \<noteq> []" by auto
    with inv show ?thesis by (rule call_known)
  qed
  have a: "i < length (calls s) \<and>
      (\<exists>u. calls s ! i =
         H_returned u
           \<lparr>code = 400, status = ''error'', message = ''Could not open video source.''\<rparr>) \<and>
      Spawn \<notin> set (call_trace i as)"
    if "Is_opened False \<in> set (call_trace i as)" for i
    using known [OF that] that call_at_failed [of "calls s ! i" "call_trace i as"]
    unfolding error_response_def by blast
  have b: "i < length (calls s) \<and> (\<exists>u. calls s ! i = H_raised u) \<and>
      Spawn \<notin> set (call_trace i as)"
    if "Open Open_raised \<in> set (call_trace i as)" for i
    using known [OF that] that call_at_failed [of "calls s ! i" "call_trace i as"]
    by blast
  have c: "comes_before Set_flag (Open r) (call_trace i as) \<and>
      comes_before Release (Open r) (call_trace i as)"
    if "Alive True \<in> set (call_trace i as)" and "Open r \<in> set (call_trace i as)" for i r
    using known [OF that(1)] that call_at_order [of "calls s ! i" "call_trace i as"]
    by blast
  have d: "\<not> b"
    if "as = pre @ Handle i (Open Not_opened) # mid @ Handle i (Is_opened b) # post \<and>
        list_all (\<lambda>a. \<not> replaces_capture a) mid" for pre i mid b post
    using that assms own_failed_open_tested [of pre i mid b post s] by simp
  have e: "\<not> is_opened s \<and> captures s \<noteq> [] \<and>
        video_capture s = Some (length (captures s) - 1) \<and> \<not> opened (last (captures s))"
    if "as = pre @ Handle i (Open Not_opened) # post \<and>
        list_all (\<lambda>a. \<not> replaces_capture a) post" for pre i post
    using that assms failed_open_is_current [of pre i post s] by simp
  have f: "output_frame s2 = output_frame s1 \<and>
        (ha \<noteq> Spawn \<longrightarrow> threads s2 = threads s1 \<and> capture_thread s2 = capture_thread s1) \<and>
        (ha = Set_flag \<longrightarrow> shutdown_flag s2)"
    if "start_stream i ha s1 = Some s2" for i ha s1 s2
    using that by (rule handler_step_keeps)
  from handles_run [OF assms] a b c d e f show ?thesis
    by (intro conjI allI impI) blast+
qed

theorem failed_open_returns_error_witness:
  "\<exists>s. run (first_stream @ failed_switch) init = Some s \<and>
     handles s = [(True, 1), (False, 0)] \<and> replay (first_stream @ failed_switch) = handles s \<and>
     call_trace 1 (first_stream @ failed_switch) =
       [Alive True, Set_flag, Joined, Release, Clear_flag, Open Not_opened, Is_opened False] \<and>
     calls s ! 1 =
       H_returned (Uri ''bad://nowhere'')
         \<lparr>code = 400, status = ''error'', message = ''Could not open video source.''\<rparr> \<and>
     (\<exists>u. calls s ! 1 =
        H_returned u
          \<lparr>code = 400, status = ''error'', message = ''Could not open video source.''\<rparr>) \<and>
     Spawn \<notin> set (call_trace 1 (first_stream @ failed_switch)) \<and>
     comes_before Set_flag (Open Not_opened) (call_trace 1 (first_stream @ failed_switch)) \<and>
     comes_before Release (Open Not_opened) (call_trace 1 (first_stream @ failed_switch)) \<and>
     \<not> is_opened s \<and> video_capture s = Some (length (captures s) - 1) \<and>
     \<not> opened (last (captures s))"
proof -
  define s where "s = the (run (first_stream @ failed_switch) init)"
  have r: "run (first_stream @ failed_switch) init = Some s"
    unfolding s_def by (simp add: first_stream_def failed_switch_def run_defs)
  have h: "handles s = [(True, 1), (False, 0)]"
    unfolding s_def by (simp add: first_stream_def failed_switch_def run_defs handles_def)
  have c: "calls s ! 1 =
      H_returned (Uri ''bad://nowhere'')
        \<lparr>code = 400, status = ''error'', message = ''Could not open video source.''\<rparr>"
    unfolding s_def
    by (simp add: first_stream_def failed_switch_def run_defs error_response_def)
  have t1: "call_trace 1 (first_stream @ failed_switch) =
      [Alive True, Set_flag, Joined, Release, Clear_flag, Open Not_opened, Is_opened False]"
    by (simp add: first_stream_def failed_switch_def call_trace_def)
  have m: "Alive True \<in> set (call_trace 1 (first_stream @ failed_switch))"
      "Open Not_opened \<in> set (call_trace 1 (first_stream @ failed_switch))"
      "Is_opened False \<in> set (call_trace 1 (first_stream @ failed_switch))"
    unfolding t1 by simp_all
  have e: "first_stream @ failed_switch =
      (first_stream @ take 9 failed_switch) @ Handle 1 (Open Not_opened) #
      [Handle 1 (Is_opened False)] \<and>
      list_all (\<lambda>a. \<not> replaces_capture a) [Handle 1 (Is_opened False)]"
    by (simp add: first_stream_def failed_switch_def)
  note err = failed_open_returns_error [OF r]
  from err have "replay (first_stream @ failed_switch) = handles s"
    by simp
  moreover from err m have "(\<exists>u. calls s ! 1 =
        H_returned u
          \<lparr>code = 400, status = ''error'', message = ''Could not open video source.''\<rparr>) \<and>
      Spawn \<notin> set (call_trace 1 (first_stream @ failed_switch))"
    by blast
  moreover from err m
  have "comes_before Set_flag (Open Not_opened) (call_trace 1 (first_stream @ failed_switch)) \<and>
      comes_before Release (Open Not_opened) (call_trace 1 (first_stream @ failed_switch))"
    by blast
  moreover from err e have "\<not> is_opened s \<and> video_capture s = Some (length (captures s) - 1) \<and>
      \<not> opened (last (captures s))"
    by blast
  ultimately show ?thesis
    using r h c t1 by blast
qed

section \<open>How many loops run\<close>

lemma serial_append:
  "serial (as @ bs) s =
     (serial as s \<and> (case run as s of None \<Rightarrow> True | Some s' \<Rightarrow> serial bs s'))"
  by (induction as arbitrary: s) (auto split: option.splits)

lemma alone_others:
  assumes "alone (Handle j ha) s" and "i < length (calls s)" and "i \<noteq> j"
  shows "outside (calls s ! i)"
proof (cases "i < j")
  case True
  from assms(1) have "list_all outside (take j (calls s))"
    by simp
  with True assms(2) have "outside (take j (calls s) ! i)"
    by (simp add: list_all_length)
  with True show ?thesis by simp
next
  case False
  with assms(3) have l: "Suc j \<le> i" by simp
  from assms(1) have "list_all outside (drop (Suc j) (calls s))"
    by simp
  moreover from l assms(2) have "i - Suc j < length (drop (Suc j) (calls s))"
    by simp
  ultimately have "outside (drop (Suc j) (calls s) ! (i - Suc j))"
    by (simp only: list_all_length)
  with l assms(2) show ?thesis by simp
qed

lemma outside_not_past_join: "outside pc \<Longrightarrow> \<not> past_join pc"
  by (cases pc) simp_all

lemma stopped_stays:
  assumes "step a s = Some s'" and "t < length (threads s)" and "threads s ! t = L_stopped"
  shows "threads s' ! t = L_stopped"
proof (cases "\<exists>la. a = Capture t la")
  case False
  with assms show ?thesis by (simp add: step_thread_kept)
next
  case True
  then obtain la where "a = Capture t la" ..
  with assms show ?thesis
    by (cases la) (auto simp: loop_iff)
qed

lemma step_other_threads:
  assumes "step a s = Some s'" and "\<forall>j ha. a \<noteq> Handle j ha"
  shows "length (threads s') = length (threads s) \<and> capture_thread s' = capture_thread s"
proof (cases a)
  case (Advance d)
  with assms show ?thesis by (auto split: if_splits)
next
  case (Capture t la)
  with assms show ?thesis by (cases la) (auto simp: loop_iff effect_defs)
next
  case (View k va)
  with assms show ?thesis by (cases va) (auto simp: gen_iff effect_defs)
next
  case Connect
  with assms show ?thesis by (auto simp: effect_defs)
next
  case (Request u)
  with assms show ?thesis by (auto simp: effect_defs)
next
  case (Handle i ha)
  with assms show ?thesis by simp
qed

lemma step_calls_past_join:
  assumes "step a s = Some s'" and "\<forall>j ha. a \<noteq> Handle j ha"
    and "i < length (calls s')" and "past_join (calls s' ! i)"
  shows "i < length (calls s) \<and> past_join (calls s ! i)"
proof (cases "\<exists>u. a = Request u")
  case True
  then obtain u where "a = Request u" ..
  with assms(1) have "calls s' = calls s @ [H_alive u]"
    by (auto simp: request_def)
  with assms(3,4) show ?thesis
    by (cases "i < length (calls s)") (auto simp: nth_append less_Suc_eq)
next
  case False
  with assms(1,2) have "calls s' = calls s"
    using step_other_calls [of a s s'] by blast
  with assms(3,4) show ?thesis by simp
qed

lemma one_loop_other:
  assumes "step a s = Some s'" and "\<forall>j ha. a \<noteq> Handle j ha" and "one_loop s"
  shows "one_loop s'"
proof -
  from step_other_threads [OF assms(1,2)] have l: "length (threads s') = length (threads s)"
    and c: "capture_thread s' = capture_thread s"
    by blast+
  have was_alive: "threads s ! t \<noteq> L_stopped"
    if "t < length (threads s)" and "threads s' ! t \<noteq> L_stopped" for t
    using that stopped_stays [OF assms(1)] by blast
  have fwd: "threads s' ! t = L_stopped"
    if "t < length (threads s)" and "threads s ! t = L_stopped" for t
    using that stopped_stays [OF assms(1)] by blast
  have pj: "\<exists>i. i < length (calls s) \<and> past_join (calls s ! i)"
    if "\<exists>i. i < length (calls s') \<and> past_join (calls s' ! i)"
    using that step_calls_past_join [OF assms(1,2)] by blast
  from assms(3) show ?thesis
    unfolding one_loop_def l c using was_alive fwd pj by blast
qed

lemma not_alive_all_stopped:
  assumes "one_loop s" and "\<not> is_alive s" and "t < length (threads s)"
  shows "threads s ! t = L_stopped"
proof (rule ccontr)
  assume "threads s ! t \<noteq> L_stopped"
  with assms(1,3) have "capture_thread s = Some t"
    by (simp add: one_loop_def)
  with assms(3) \<open>threads s ! t \<noteq> L_stopped\<close> have "is_alive s"
    by (simp add: is_alive_def)
  with assms(2) show False ..
qed

lemma one_loop_handler:
  assumes st: "start_stream j ha s = Some s'" and "ha \<noteq> Timeout"
    and al: "alone (Handle j ha) s" and inv: "one_loop s"
  shows "one_loop s'"
proof -
  from handler_step_calls [OF st] have len: "j < length (calls s)"
      "length (calls s') = length (calls s)" and same: "\<forall>i. i \<noteq> j \<longrightarrow> calls s' ! i = calls s ! i"
    by blast+
  have only: "i = j" if "i < length (calls s')" and "past_join (calls s' ! i)" for i
  proof (rule ccontr)
    assume "i \<noteq> j"
    with that len same have "i < length (calls s)" "past_join (calls s ! i)"
      by simp_all
    with alone_others [OF al] \<open>i \<noteq> j\<close> show False
      using outside_not_past_join by blast
  qed
  have keep: "one_loop s'"
    if "threads s' = threads s" and "capture_thread s' = capture_thread s"
      and "past_join (calls s' ! j) \<longrightarrow> (\<forall>t. t < length (threads s) \<longrightarrow> threads s ! t = L_stopped)"
    using that inv only unfolding one_loop_def by metis
  show ?thesis
  proof (cases ha)
    case (Alive b)
    with st obtain u where h: "b = is_alive s"
        "calls s' ! j = (if b then H_set u else H_clear u)" "threads s' = threads s"
        "capture_thread s' = capture_thread s"
      using len by (auto simp: start_stream_iff hgoto_def)
    show ?thesis
    proof (cases b)
      case True
      with h show ?thesis by (intro keep) simp_all
    next
      case False
      with h have "\<forall>t. t < length (threads s) \<longrightarrow> threads s ! t = L_stopped"
        using not_alive_all_stopped [OF inv] by blast
      with h show ?thesis by (intro keep) simp_all
    qed
  next
    case Set_flag
    with st obtain u d where "calls s' ! j = H_join u d" "threads s' = threads s"
        "capture_thread s' = capture_thread s"
      using len by (auto simp: start_stream_iff hgoto_def)
    then show ?thesis by (intro keep) simp_all
  next
    case Joined
    with st obtain u where h: "\<not> is_alive s" "calls s' ! j = H_release u"
        "threads s' = threads s" "capture_thread s' = capture_thread s"
      using len by (auto simp: start_stream_iff hgoto_def)
    from h(1) have "\<forall>t. t < length (threads s) \<longrightarrow> threads s ! t = L_stopped"
      using not_alive_all_stopped [OF inv] by blast
    with h show ?thesis by (intro keep) simp_all
  next
    case Timeout
    with assms(2) show ?thesis by simp
  next
    case Release
    with st obtain u where "calls s ! j = H_release u"
        "threads s' = threads s" "capture_thread s' = capture_thread s"
      by (auto simp: start_stream_iff hgoto_def release_def split: option.splits)
    with inv len show ?thesis
      by (intro keep) (auto simp: one_loop_def)
  next
    case Clear_flag
    with st obtain u where "calls s ! j = H_clear u"
        "threads s' = threads s" "capture_thread s' = capture_thread s"
      by (auto simp: start_stream_iff hgoto_def)
    with inv len show ?thesis
      by (intro keep) (auto simp: one_loop_def)
  next
    case (Open r)
    with st obtain u where "calls s ! j = H_open u"
        "threads s' = threads s" "capture_thread s' = capture_thread s"
      by (auto simp: start_stream_iff hgoto_def open_capture_def split: if_splits)
    with inv len show ?thesis
      by (intro keep) (auto simp: one_loop_def)
  next
    case (Is_opened b)
    with st obtain u where "calls s ! j = H_isopened u"
        "threads s' = threads s" "capture_thread s' = capture_thread s"
      by (auto simp: start_stream_iff hgoto_def)
    with inv len show ?thesis
      by (intro keep) (auto simp: one_loop_def)
  next
    case Spawn
    with st obtain u where h: "calls s ! j = H_spawn u"
        "calls s' ! j = H_returned u (success_response u)"
        "threads s' = threads s @ [L_while]" "capture_thread s' = Some (length (threads s))"
      using len by (auto simp: start_stream_iff hgoto_def spawn_def)
    from inv h(1) len have "\<forall>t. t < length (threads s) \<longrightarrow> threads s ! t = L_stopped"
      by (auto simp: one_loop_def)
    moreover from only h(2) have "\<not> (\<exists>i. i < length (calls s') \<and> past_join (calls s' ! i))"
      by auto
    ultimately show ?thesis
      using h(3,4) by (auto simp: one_loop_def nth_append)
  qed
qed

lemma one_loop_run:
  "run as s = Some s' \<Longrightarrow> serial as s \<Longrightarrow> \<forall>i. Handle i Timeout \<notin> set as \<Longrightarrow> one_loop s \<Longrightarrow>
     one_loop s'"
proof (induction as arbitrary: s)
  case Nil
  then show ?case by simp
next
  case (Cons a as)
  from Cons.prems(1) obtain s1 where s1: "step a s = Some s1" "run as s1 = Some s'"
    by (auto split: option.splits)
  with Cons.prems(2) have al: "alone a s" and se: "serial as s1"
    by simp_all
  have "one_loop s1"
  proof (cases "\<exists>j ha. a = Handle j ha")
    case True
    then obtain j ha where a: "a = Handle j ha" by blast
    with Cons.prems(3) have "ha \<noteq> Timeout" by auto
    with s1(1) a al Cons.prems(4) show ?thesis
      using one_loop_handler [of j ha s s1] by simp
  next
    case False
    with s1(1) Cons.prems(4) show ?thesis
      using one_loop_other [of a s s1] by blast
  qed
  with Cons.IH [OF s1(2) se] Cons.prems(3) show ?case
    by simp
qed

lemma filter_at_most_one:
  assumes "\<forall>i j. i < length xs \<and> j < length xs \<and> P (xs ! i) \<and> P (xs ! j) \<longrightarrow> i = j"
  shows "length (filter P xs) \<le> 1"
  using assms
proof (induction xs)
  case Nil
  then show ?case by simp
next
  case (Cons x xs)
  have tail: "\<forall>i j. i < length xs \<and> j < length xs \<and> P (xs ! i) \<and> P (xs ! j) \<longrightarrow> i = j"
  proof (intro allI impI)
    fix i j
    assume "i < length xs \<and> j < length xs \<and> P (xs ! i) \<and> P (xs ! j)"
    then have "Suc i < length (x # xs) \<and> Suc j < length (x # xs) \<and>
        P ((x # xs) ! Suc i) \<and> P ((x # xs) ! Suc j)"
      by simp
    with Cons.prems have "Suc i = Suc j"
      by blast
    then show "i = j" by simp
  qed
  show ?case
  proof (cases "P x")
    case False
    with Cons.IH [OF tail] show ?thesis by simp
  next
    case True
    have "\<not> P (xs ! i)" if "i < length xs" for i
    proof
      assume "P (xs ! i)"
      with that True have "0 < length (x # xs) \<and> Suc i < length (x # xs) \<and>
          P ((x # xs) ! 0) \<and> P ((x # xs) ! Suc i)"
        by simp
      with Cons.prems have "0 = Suc i"
        by blast
      then show False by simp
    qed
    then have "filter P xs = []"
      by (auto simp: filter_empty_conv in_set_conv_nth)
    with True show ?thesis by simp
  qed
qed

lemma one_loop_init: "one_loop init"
  by (simp add: one_loop_def init_def)

text \<open>
  Claim C1, as stated, fails. \<open>join(timeout=2)\<close> gives up when the old thread has not
  looked at the flag in time, and line 77 clears the flag again, so the old thread never
  sees it: in the schedule below, whose calls do not overlap, both threads are running at
  the end and both have stored a frame. Two calls that overlap can also both find no
  thread alive and both start one.
\<close>

theorem join_timeout_leaves_two_loops:
  "map_option (\<lambda>s. (live_loops s, map (\<lambda>pc. pc = L_stopped) (threads s), output_frame s))
     (run stuck_switch init) = Some (2, [False, False], Some ''jpg1'') \<and>
   map_option (\<lambda>s. (threads s ! 0, threads s ! 1, output_frame s))
     (run (butlast (butlast stuck_switch)) init) =
     Some (L_pace (25 / 12), L_lock ''jpg1'', Some ''jpg0'') \<and>
   serial stuck_switch init \<and>
   map_option live_loops
     (run (overlapping_calls @ [Handle 1 (Is_opened True), Handle 1 Spawn]) init) = Some 2"
  by (simp add: stuck_switch_def failing_read_def overlapping_calls_def run_defs live_loops_def)

text \<open>
  Claim C1, amended: as long as the calls of \<open>start_stream\<close> are served one after the
  other and no \<open>join\<close> has timed out, at most one capture thread is running at every
  moment, and at the moment a call starts a new thread all threads started before have
  ended.
\<close>

theorem one_capture_loop_when_serial:
  assumes "run as init = Some s" and "serial as init" and "\<forall>i. Handle i Timeout \<notin> set as"
  shows "(\<forall>pre post s1. as = pre @ post \<and> run pre init = Some s1 \<longrightarrow> live_loops s1 \<le> 1) \<and>
         (\<forall>pre i post s1. as = pre @ Handle i Spawn # post \<and> run pre init = Some s1 \<longrightarrow>
            list_all (\<lambda>pc. pc = L_stopped) (threads s1))"
proof -
  have inv: "one_loop s1" if "as = pre @ post" and "run pre init = Some s1" for pre post s1
  proof -
    from that(1) assms(2) have "serial pre init"
      by (simp add: serial_append)
    moreover from that(1) assms(3) have "\<forall>i. Handle i Timeout \<notin> set pre"
      by simp
    ultimately show ?thesis
      using one_loop_run [OF that(2)] one_loop_init by blast
  qed
  have one: "live_loops s1 \<le> 1" if "as = pre @ post \<and> run pre init = Some s1" for pre post s1
  proof -
    from that have "one_loop s1"
      using inv by blast
    then have "\<forall>i j. i < length (threads s1) \<and> j < length (threads s1) \<and>
        threads s1 ! i \<noteq> L_stopped \<and> threads s1 ! j \<noteq> L_stopped \<longrightarrow> i = j"
      unfolding one_loop_def by (metis option.inject)
    then show ?thesis
      unfolding live_loops_def by (rule filter_at_most_one)
  qed
  have sp: "list_all (\<lambda>pc. pc = L_stopped) (threads s1)"
    if "as = pre @ Handle i Spawn # post \<and> run pre init = Some s1" for pre i post s1
  proof -
    from that have i: "one_loop s1"
      using inv [of pre "Handle i Spawn # post" s1] by blast
    from that assms(1) obtain s2 where "start_stream i Spawn s1 = Some s2"
      by (auto simp: run_append split: option.splits)
    then have "i < length (calls s1) \<and> past_join (calls s1 ! i)"
      by (auto simp: start_stream_iff)
    with i show ?thesis
      unfolding one_loop_def list_all_length by blast
  qed
  from one sp show ?thesis
    by blast
qed

theorem one_capture_loop_when_serial_witness:
  "\<exists>s s1. run (first_stream @ good_switch) init = Some s \<and>
     serial (first_stream @ good_switch) init \<and>
     (\<forall>i. Handle i Timeout \<notin> set (first_stream @ good_switch)) \<and>
     threads s = [L_stopped, L_while] \<and> live_loops s = 1 \<and> live_loops s \<le> 1 \<and>
     first_stream @ good_switch = (first_stream @ butlast good_switch) @ Handle 1 Spawn # [] \<and>
     run (first_stream @ butlast good_switch) init = Some s1 \<and>
     threads s1 = [L_stopped] \<and> list_all (\<lambda>pc. pc = L_stopped) (threads s1)"
proof -
  define s where "s = the (run (first_stream @ good_switch) init)"
  define s1 where "s1 = the (run (first_stream @ butlast good_switch) init)"
  have r: "run (first_stream @ good_switch) init = Some s"
    unfolding s_def by (simp add: first_stream_def good_switch_def run_defs)
  have r1: "run (first_stream @ butlast good_switch) init = Some s1"
    unfolding s1_def by (simp add: first_stream_def good_switch_def run_defs)
  have se: "serial (first_stream @ good_switch) init"
    by (simp add: first_stream_def good_switch_def run_defs)
  have nt: "\<forall>i. Handle i Timeout \<notin> set (first_stream @ good_switch)"
    by (simp add: first_stream_def good_switch_def)
  have t: "threads s = [L_stopped, L_while]"
    unfolding s_def by (simp add: first_stream_def good_switch_def run_defs)
  have t1: "threads s1 = [L_stopped]"
    unfolding s1_def by (simp add: first_stream_def good_switch_def run_defs)
  have d: "first_stream @ good_switch = (first_stream @ butlast good_switch) @ Handle 1 Spawn # []"
    by (simp add: first_stream_def good_switch_def)
  have d0: "first_stream @ good_switch = (first_stream @ good_switch) @ []"
    by simp
  note one = one_capture_loop_when_serial [OF r se nt]
  from one d0 r have "live_loops s \<le> 1"
    by blast
  moreover from one d r1 have "list_all (\<lambda>pc. pc = L_stopped) (threads s1)"
    by blast
  moreover from t have "live_loops s = 1"
    by (simp add: live_loops_def)
  ultimately show ?thesis
    using r r1 se nt t t1 d by blast
qed

section \<open>Releasing the capture objects\<close>




















end
